theory Spec2Isabelle
  imports Main "HOL-Library.Sublist"
begin

section \<open>Python strings\<close>

text \<open>
  A Python \<open>str\<close> is modelled as a \<open>string\<close>; each \<open>char\<close> stands for one code point
  below 256. \<open>is_space\<close> is \<open>str.isspace\<close> on that range, which is also the class \<open>\s\<close>
  of the \<open>re\<close> module for \<open>str\<close> patterns.
\<close>

definition is_space :: "char \<Rightarrow> bool" where
  "is_space c = (c \<in> set [CHR 0x09, CHR 0x0A, CHR 0x0B, CHR 0x0C, CHR 0x0D,
                            CHR 0x1C, CHR 0x1D, CHR 0x1E, CHR 0x1F, CHR 0x20,
                            CHR 0x85, CHR 0xA0])"

definition lstrip :: "string \<Rightarrow> string" where
  "lstrip s = dropWhile is_space s"

definition rstrip :: "string \<Rightarrow> string" where
  "rstrip s = rev (dropWhile is_space (rev s))"

text \<open>\<open>s.strip()\<close>\<close>

definition strip :: "string \<Rightarrow> string" where
  "strip s = lstrip (rstrip s)"

text \<open>
  \<open>find_sub pat s\<close> locates the leftmost occurrence of \<open>pat\<close> in \<open>s\<close> and returns the text
  before it and the text after it.
\<close>

fun find_sub :: "string \<Rightarrow> string \<Rightarrow> (string \<times> string) option" where
  "find_sub pat [] = (if pat = [] then Some ([], []) else None)"
| "find_sub pat (c # cs) =
     (if prefix pat (c # cs) then Some ([], drop (length pat) (c # cs))
      else (case find_sub pat cs of
              None \<Rightarrow> None
            | Some (a, b) \<Rightarrow> Some (c # a, b)))"

text \<open>\<open>s.split('\n', 1)\<close>: at most one split, at the first newline.\<close>

definition split_newline :: "string \<Rightarrow> string list" where
  "split_newline s =
     (case find_sub [CHR 0x0A] s of
        None \<Rightarrow> [s]
      | Some (a, b) \<Rightarrow> [a, b])"

section \<open>Tag Separator: \<open>Agent._separate_ai_messages\<close>\<close>

datatype error = ValueError | KeyError | TypeError | EngineError nat

definition open_tag :: string where
  "open_tag = ''<think>''"

definition close_tag :: string where
  "close_tag = ''</think>''"

text \<open>
  \<open>search(r'<think>', text)\<close>: the text before the leftmost opening tag and the text from
  \<open>start_match.end()\<close> on.
\<close>

definition search_open :: "string \<Rightarrow> (string \<times> string) option" where
  "search_open text = find_sub open_tag text"

text \<open>
  \<open>search(r'<think>(.*?)</think>', text, flags=DOTALL)\<close>. The engine tries start positions
  from the left; a start position matches when an opening tag stands there and a closing
  tag follows it somewhere (with \<open>DOTALL\<close> the dot matches every character), and the lazy
  group ends at the first such closing tag. The leftmost opening tag is followed by every
  closing tag that follows a later one, so the match, when there is one, starts at the
  leftmost opening tag. The result is (text before the match, group 1, text after it).
\<close>

definition search_closed :: "string \<Rightarrow> (string \<times> string \<times> string) option" where
  "search_closed text =
     (case find_sub open_tag text of
        None \<Rightarrow> None
      | Some (pre, rest) \<Rightarrow>
          (case find_sub close_tag rest of
             None \<Rightarrow> None
           | Some (inner, post) \<Rightarrow> Some (pre, inner, post)))"

lemma find_sub_length:
  "find_sub pat s = Some (a, b) \<Longrightarrow> length a + length pat + length b = length s"
proof (induction s arbitrary: a b)
  case Nil
  then show ?case by (simp split: if_splits)
next
  case (Cons c cs)
  show ?case
  proof (cases "prefix pat (c # cs)")
    case True
    then obtain zs where zs: "c # cs = pat @ zs"
      by (auto simp: prefix_def)
    from True Cons.prems have "a = []" "b = drop (length pat) (c # cs)"
      by auto
    with zs have "a = []" "b = zs"
      by simp_all
    with zs show ?thesis
      by (metis append_Nil length_append list.size(3) add_0)
  next
    case False
    with Cons.prems obtain a' where "find_sub pat cs = Some (a', b)" "a = c # a'"
      by (auto split: option.splits)
    with Cons.IH show ?thesis by simp
  qed
qed

lemma search_closed_post_shorter:
  assumes "search_closed text = Some (pre, inner, post)"
  shows "length post < length text"
proof -
  from assms obtain rest where
    r: "find_sub open_tag text = Some (pre, rest)" "find_sub close_tag rest = Some (inner, post)"
    by (auto simp: search_closed_def split: option.splits)
  show ?thesis
    using find_sub_length [OF r(1)] find_sub_length [OF r(2)]
    by (simp add: open_tag_def)
qed

lemma search_closed_shorter:
  assumes "search_closed text = Some (pre, inner, post)"
  shows "length (dropWhile is_space post) < length text"
proof -
  from assms obtain rest where
    r: "find_sub open_tag text = Some (pre, rest)" "find_sub close_tag rest = Some (inner, post)"
    by (auto simp: search_closed_def split: option.splits)
  have "length post < length text"
    using find_sub_length [OF r(1)] find_sub_length [OF r(2)]
    by (simp add: open_tag_def)
  moreover have "length (dropWhile is_space post) \<le> length post"
    by (rule length_dropWhile_le)
  ultimately show ?thesis by simp
qed

text \<open>
  \<open>sub(r'\s*<think>.*?</think>\s*', '', text, flags=DOTALL)\<close>: every non-overlapping match,
  found from the left, is deleted. A match takes the whole run of whitespace in front of
  its opening tag (the greedy \<open>\s*\<close> cannot stop earlier, since the next character must be
  \<open><\<close>), the block up to the first closing tag, and the whole run of whitespace behind
  it; the scan goes on behind the match.
\<close>

function sub_closed :: "string \<Rightarrow> string" where
  "sub_closed text =
     (case search_closed text of
        None \<Rightarrow> text
      | Some (pre, inner, post) \<Rightarrow> rstrip pre @ sub_closed (lstrip post))"
  by pat_completeness auto
termination
  by (relation "measure length") (auto simp: lstrip_def dest: search_closed_shorter)

declare sub_closed.simps [simp del]

definition separate_ai_messages :: "string option \<Rightarrow> error + string \<times> string" where
  "separate_ai_messages text_arg =
     (case text_arg of
        None \<Rightarrow> Inl ValueError
      | Some text \<Rightarrow>
          (let m = search_closed text;
               inside_tags = (case m of Some (_, g, _) \<Rightarrow> strip g | None \<Rightarrow> [])
           in if m = None then
                (case search_open text of
                   Some (_, after) \<Rightarrow>
                     (let inside_content = strip after;
                          lines = split_newline inside_content
                      in if length lines > 1
                         then Inr (strip (lines ! 0), strip (lines ! 1))
                         else Inr ([], strip inside_content))
                 | None \<Rightarrow> Inr ([], text))
              else Inr (inside_tags, strip (sub_closed text))))"

section \<open>Data model\<close>

type_synonym metadata = "(string \<times> string) list"

text \<open>
  The \<open>content\<close> of a message is a Python \<open>str\<close> or some other value: the list of content
  blocks of a typed message, or a JSON value that is not a string. Such a value is
  represented by the text that \<open>str()\<close> returns for it.
\<close>

datatype content = Str string | NonStr string

fun py_str :: "content \<Rightarrow> string" where
  "py_str (Str s) = s"
| "py_str (NonStr r) = r"

text \<open>
  The typed messages of \<open>langchain_core.messages\<close>. \<open>HumanMessage\<close> and \<open>AIMessage\<close> carry
  their \<open>response_metadata\<close>, a \<open>ToolMessage\<close> its optional \<open>name\<close>.
\<close>

datatype base_message =
    HumanMessage content metadata
  | AIMessage content metadata
  | ToolMessage content "string option"
  | SystemMessage content

datatype message_type = HumanT | AIT | ToolT | SystemT

fun type_of :: "base_message \<Rightarrow> message_type" where
  "type_of (HumanMessage _ _) = HumanT"
| "type_of (AIMessage _ _) = AIT"
| "type_of (ToolMessage _ _) = ToolT"
| "type_of (SystemMessage _) = SystemT"

fun content_of :: "base_message \<Rightarrow> content" where
  "content_of (HumanMessage c _) = c"
| "content_of (AIMessage c _) = c"
| "content_of (ToolMessage c _) = c"
| "content_of (SystemMessage c) = c"

text \<open>An entry of the transcript in its wire shape: a dict with these three keys.\<close>

record entry =
  role :: string
  content :: content
  metadata :: metadata

text \<open>
  An element of the list that \<open>loads(existing_thread['content'])\<close> returns: a dict, given
  by its \<open>msg.get("role")\<close> (\<open>None\<close> when the key is missing or its value is not a
  string), its \<open>content\<close> (any JSON value; a missing key reads as the value whose
  \<open>str()\<close> is \<open>None\<close>) and its \<open>metadata\<close> (a dict), or a JSON value that is not a dict.
  \<open>loads\<close> never returns a typed message, so the branch
  \<open>isinstance(msg, (HumanMessage, AIMessage))\<close> of the conversion loop is never taken.
\<close>

datatype stored = SDict "string option" content metadata | SOther

text \<open>\<open>dumps\<close> of an entry, read back by \<open>loads\<close>.\<close>

definition stored_of :: "entry \<Rightarrow> stored" where
  "stored_of e = SDict (Some (role e)) (content e) (metadata e)"

text \<open>A row of the SQLite table as \<open>load_all_from_sqlite\<close> returns it.\<close>

record thread =
  t_content :: "stored list"
  t_source :: string
  t_group :: string

type_synonym store = "string \<rightharpoonup> thread"

text \<open>
  The checkpointer of the agent: per thread id, the messages the agent engine remembers.
  \<open>agent.update_state(config, {"messages": ms})\<close> writes through the reducer of the
  \<open>messages\<close> channel, which replaces a stored message only by one with the same id and
  appends every other one. The resolver builds its messages anew, without ids, so they
  are appended to what the thread holds. The writes that the engine makes to its own
  checkpoint while it streams are not part of this model.
\<close>

type_synonym working_state = "string \<rightharpoonup> base_message list"

definition update_state :: "working_state \<Rightarrow> string \<Rightarrow> base_message list \<Rightarrow> working_state" where
  "update_state ws thread_id messages =
     ws(thread_id \<mapsto> (case ws thread_id of None \<Rightarrow> [] | Some known \<Rightarrow> known) @ messages)"

text \<open>\<open>gradio.EditData\<close>: \<open>index\<close> is an int or a tuple of ints, \<open>value\<close> the new text.\<close>

datatype edit_index = IntIndex int | TupleIndex

datatype edit_data = EditData edit_index string

section \<open>Mode Resolver: \<open>Agent._update_current_state\<close>\<close>

text \<open>
  The body of the conversion loop (lines 325 to 340): what one element of the history
  appends to \<open>converted_convo\<close>. A dict with role \<open>user\<close> or \<open>assistant\<close> is converted,
  with \<open>str(content)\<close> as its content; anything else appends nothing.
\<close>

definition convert_entry :: "stored \<Rightarrow> base_message list" where
  "convert_entry msg =
     (case msg of
        SDict r c md \<Rightarrow>
          if r = Some ''user'' then [HumanMessage (Str (py_str c)) md]
          else if r = Some ''assistant'' then [AIMessage (Str (py_str c)) md]
          else []
      | SOther \<Rightarrow> [])"

text \<open>
  The loop over the reversed history (lines 324 to 344): the counter is incremented for
  every element, converted or not, and the loop breaks when it reaches 10.
\<close>

fun convert_loop :: "stored list \<Rightarrow> base_message list \<Rightarrow> nat \<Rightarrow> base_message list" where
  "convert_loop [] converted_convo counting_messages = converted_convo"
| "convert_loop (msg # rest) converted_convo counting_messages =
     (let converted_convo' = converted_convo @ convert_entry msg;
          counting_messages' = counting_messages + 1
      in if counting_messages' = 10 then converted_convo'
         else convert_loop rest converted_convo' counting_messages')"

text \<open>Lines 320 to 346: reverse, convert at most 10 elements, reverse back.\<close>

definition capped_history :: "stored list \<Rightarrow> base_message list" where
  "capped_history history = rev (convert_loop (rev history) [] 0)"

text \<open>The loop of lines 355 to 357: the index of the last \<open>HumanMessage\<close>.\<close>

fun find_latest :: "base_message list \<Rightarrow> nat \<Rightarrow> nat option \<Rightarrow> nat option" where
  "find_latest [] idx latest_index = latest_index"
| "find_latest (item # rest) idx latest_index =
     find_latest rest (idx + 1)
       (if type_of item = HumanT then Some idx else latest_index)"

text \<open>Python's \<open>xs[:k]\<close>: \<open>None\<close> keeps the list, a negative \<open>k\<close> counts from the end.\<close>

definition slice_to :: "'a list \<Rightarrow> int option \<Rightarrow> 'a list" where
  "slice_to xs k =
     (case k of
        None \<Rightarrow> xs
      | Some i \<Rightarrow> if i < 0 then take (nat (int (length xs) + i)) xs else take (nat i) xs)"

text \<open>The loop of lines 382 to 394.\<close>

fun to_transcript :: "base_message list \<Rightarrow> entry list" where
  "to_transcript [] = []"
| "to_transcript (msg # rest) =
     (case msg of
        HumanMessage c md \<Rightarrow> [\<lparr>role = ''user'', content = c, metadata = md\<rparr>]
      | AIMessage c md \<Rightarrow> [\<lparr>role = ''assistant'', content = c, metadata = md\<rparr>]
      | _ \<Rightarrow> []) @ to_transcript rest"

definition user_entry :: "string \<Rightarrow> entry" where
  "user_entry query =
     \<lparr>role = ''user'', content = Str query, metadata = [(''title'', ''User Message'')]\<rparr>"

text \<open>
  The result is the returned tuple (query, transcript, source, group) together with the
  working state after the call; a thread id that is not in the store raises \<open>KeyError\<close>
  at \<open>existing_thread['source']\<close>.
\<close>

definition update_current_state ::
  "store \<Rightarrow> working_state \<Rightarrow> string \<Rightarrow> string \<Rightarrow> string \<Rightarrow> edit_data option \<Rightarrow>
     error + (string \<times> entry list \<times> string \<times> string) \<times> working_state" where
  "update_current_state st ws query selected_thread mode ed =
     (case st selected_thread of
        None \<Rightarrow> Inl KeyError
      | Some existing_thread \<Rightarrow>
          (let source = t_source existing_thread;
               group = t_group existing_thread;
               converted_convo = capped_history (t_content existing_thread);
               (query1, converted_convo1, ws1) =
                 (if converted_convo \<noteq> [] then
                    (let (q, cc) =
                           (if mode \<in> set [''retry'', ''undo''] then
                              (let latest_index = find_latest converted_convo 0 None;
                                   q = (if mode = ''retry'' then
                                          (case latest_index of
                                             Some i \<Rightarrow> py_str (content_of (converted_convo ! i))
                                           | None \<Rightarrow> query)
                                        else if mode = ''undo'' then []
                                        else query)
                               in (q, slice_to converted_convo (map_option int latest_index)))
                            else if mode = ''edit'' then
                              (case ed of
                                 Some (EditData idx val) \<Rightarrow>
                                   (val, case idx of
                                           IntIndex i \<Rightarrow> slice_to converted_convo (Some i)
                                         | TupleIndex \<Rightarrow> converted_convo)
                               | None \<Rightarrow> (query, converted_convo))
                            else (query, converted_convo))
                     in (q, cc,
                         if mode \<in> set [''retry'', ''edit'', ''main'']
                         then update_state ws selected_thread cc else ws))
                  else (query, converted_convo, ws));
               transcript =
                 to_transcript converted_convo1 @ (if query1 \<noteq> [] then [user_entry query1] else [])
           in Inr ((query1, transcript, source, group), ws1)))"

section \<open>Response Stream Assembler: \<open>Agent._astream_response\<close>\<close>

text \<open>
  The state of the generator: the transcript list it appends to, the set
  \<open>processed_hashes\<close>, and the snapshots yielded so far. \<open>hash((type, content))\<close> is
  taken to be injective, so the set holds the pairs themselves.
\<close>

record stream =
  out_transcript :: "entry list"
  processed_hashes :: "(message_type \<times> content) set"
  yields :: "entry list list"

text \<open>\<open>transcript.append(e)\<close> followed by \<open>yield transcript\<close>.\<close>

definition append_yield :: "stream \<Rightarrow> entry \<Rightarrow> stream" where
  "append_yield s e =
     s\<lparr>out_transcript := out_transcript s @ [e],
       yields := yields s @ [out_transcript s @ [e]]\<rparr>"

text \<open>The f-string of line 499; a \<open>name\<close> that is \<open>None\<close> is formatted as \<open>None\<close>.\<close>

definition tool_message_out :: "string option \<Rightarrow> string \<Rightarrow> string" where
  "tool_message_out name c =
     [CHR 0x0A] @ ''Content from `'' @ (case name of Some n \<Rightarrow> n | None \<Rightarrow> ''None'')
       @ ''` toolcall:'' @ [CHR 0x0A] @ c"

text \<open>
  The body of the loop over \<open>valid_new_messages\<close> (lines 467 to 507). A content that is
  a list of blocks is unhashable, so \<open>hash\<close> raises \<open>TypeError\<close>; below that point the
  content is a \<open>str\<close> and the test \<open>isinstance(content_part.content, str)\<close> holds.
\<close>

definition process_part :: "stream \<Rightarrow> base_message \<Rightarrow> stream \<times> error option" where
  "process_part s content_part =
     (case content_of content_part of
        NonStr _ \<Rightarrow> (s, Some TypeError)
      | Str c \<Rightarrow>
          (let msg_hash = (type_of content_part, Str c) in
           if msg_hash \<in> processed_hashes s then (s, None)
           else
             (let s1 = s\<lparr>processed_hashes := insert msg_hash (processed_hashes s)\<rparr> in
              case content_part of
                AIMessage _ _ \<Rightarrow>
                  (case separate_ai_messages (Some c) of
                     Inl e \<Rightarrow> (s1, Some e)
                   | Inr (inside_tags, outside_tags) \<Rightarrow>
                       (let s2 = (if inside_tags \<noteq> [] then
                                    append_yield s1
                                      \<lparr>role = ''assistant'', content = Str inside_tags,
                                       metadata = [(''title'', ''Assistant Thinking...''),
                                                   (''status'', ''done'')]\<rparr>
                                  else s1);
                            s3 = (if outside_tags \<noteq> [] then
                                    append_yield s2
                                      \<lparr>role = ''assistant'', content = Str outside_tags,
                                       metadata = [(''title'', ''Assistant Message'')]\<rparr>
                                  else s2)
                        in (s3, None)))
              | ToolMessage _ name \<Rightarrow>
                  (let message_out = tool_message_out name c in
                   if message_out \<noteq> [] then
                     (append_yield s1
                        \<lparr>role = ''assistant'', content = Str message_out,
                         metadata = [(''title'', ''Tool call output''), (''status'', ''done'')]\<rparr>,
                      None)
                   else (s1, None))
              | _ \<Rightarrow> (s1, None))))"

fun process_parts :: "stream \<Rightarrow> base_message list \<Rightarrow> stream \<times> error option" where
  "process_parts s [] = (s, None)"
| "process_parts s (content_part # rest) =
     (case process_part s content_part of
        (s', Some e) \<Rightarrow> (s', Some e)
      | (s', None) \<Rightarrow> process_parts s' rest)"

text \<open>Lines 461 to 465: the suffix behind the baseline, without the echoed query.\<close>

definition valid_new_messages :: "nat \<Rightarrow> string \<Rightarrow> base_message list \<Rightarrow> base_message list" where
  "valid_new_messages existing_messages_count query current_messages =
     filter (\<lambda>msg. \<not> (type_of msg = HumanT \<and> content_of msg = Str query))
       (drop existing_messages_count current_messages)"

text \<open>
  The loop over the steps of \<open>agent.astream\<close>. A step is its cumulative \<open>messages\<close> list;
  a step without messages is the empty list and contributes nothing.
\<close>

fun step_loop :: "nat \<Rightarrow> string \<Rightarrow> stream \<Rightarrow> base_message list list \<Rightarrow> stream \<times> error option" where
  "step_loop existing_messages_count query s [] = (s, None)"
| "step_loop existing_messages_count query s (step # rest) =
     (case process_parts s (valid_new_messages existing_messages_count query step) of
        (s', Some e) \<Rightarrow> (s', Some e)
      | (s', None) \<Rightarrow> step_loop existing_messages_count query s' rest)"

text \<open>
  The agent engine is a collaborator: from the working state, the thread id and the
  content of the new user message it gives the steps it yields and, when the iteration
  fails, the exception raised behind the last step.
\<close>

type_synonym engine =
  "working_state \<Rightarrow> string \<Rightarrow> string \<Rightarrow> base_message list list \<times> error option"

definition astream_response ::
  "engine \<Rightarrow> working_state \<Rightarrow> entry list \<Rightarrow> string \<Rightarrow> string \<Rightarrow> stream \<times> error option" where
  "astream_response agent ws transcript query selected_thread =
     (let s0 = \<lparr>out_transcript = transcript, processed_hashes = {}, yields = []\<rparr> in
      if query \<noteq> [] then
        (let existing_messages_count =
               (case ws selected_thread of Some ms \<Rightarrow> length ms | None \<Rightarrow> 0);
             (steps, failure) = agent ws selected_thread query
         in case step_loop existing_messages_count query s0 steps of
              (s, Some e) \<Rightarrow> (s, Some e)
            | (s, None) \<Rightarrow> (s, failure))
      else (s0, None))"

section \<open>Session Orchestrator: \<open>Agent.aget_agent_response\<close>\<close>

text \<open>\<open>Agent._update_thread_history\<close>: \<open>INSERT OR REPLACE\<close> of the row of the thread.\<close>

definition update_thread_history ::
  "store \<Rightarrow> entry list \<Rightarrow> string \<Rightarrow> string \<Rightarrow> string \<Rightarrow> store" where
  "update_thread_history st transcript grp source selected_thread =
     st(selected_thread \<mapsto>
          \<lparr>t_content = map stored_of transcript, t_source = source, t_group = grp\<rparr>)"

text \<open>
  What a caller that consumes the whole generator observes: the snapshots yielded (each
  one the value of the transcript list at the moment of the \<open>yield\<close>), the exception
  raised (if any), and the two stores afterwards. The write of \<open>_update_thread_history\<close>
  is the last statement; it is reached only when nothing was raised before it.
\<close>

record run_result =
  yielded :: "entry list list"
  raised :: "error option"
  store_after :: store
  state_after :: working_state

definition aget_agent_response ::
  "engine \<Rightarrow> store \<Rightarrow> working_state \<Rightarrow> string \<Rightarrow> string \<Rightarrow> string \<Rightarrow> edit_data option \<Rightarrow>
     run_result" where
  "aget_agent_response agent st ws query selected_thread mode ed =
     (case update_current_state st ws query selected_thread mode
             (if mode = ''main'' then None else ed) of
        Inl e \<Rightarrow> \<lparr>yielded = [], raised = Some e, store_after = st, state_after = ws\<rparr>
      | Inr ((query1, transcript, source, grp), ws1) \<Rightarrow>
          (let query2 = (if mode = ''main'' then query else query1) in
           case astream_response agent ws1 transcript query2 selected_thread of
             (s, Some e) \<Rightarrow>
               \<lparr>yielded = transcript # yields s, raised = Some e,
                store_after = st, state_after = ws1\<rparr>
           | (s, None) \<Rightarrow>
               \<lparr>yielded = transcript # yields s, raised = None,
                store_after =
                  update_thread_history st (out_transcript s) grp source selected_thread,
                state_after = ws1\<rparr>))"

section \<open>Notions used to state the properties\<close>

text \<open>
  The final part as the specification words it: the input with every closed
  \<open><think>...</think>\<close> block removed (and nothing else), then trimmed.
\<close>

function spec_remove_blocks :: "string \<Rightarrow> string" where
  "spec_remove_blocks text =
     (case search_closed text of
        None \<Rightarrow> text
      | Some (pre, inner, post) \<Rightarrow> pre @ spec_remove_blocks post)"
  by pat_completeness auto
termination
  by (relation "measure length") (auto dest: search_closed_post_shorter)

declare spec_remove_blocks.simps [simp del]

definition spec_final :: "string \<Rightarrow> string" where
  "spec_final text = strip (spec_remove_blocks text)"

text \<open>The pair that \<open>_astream_response\<close> hashes: the type of a message and its content.\<close>

definition fingerprint :: "base_message \<Rightarrow> message_type \<times> content" where
  "fingerprint m = (type_of m, content_of m)"

text \<open>
  The entries that the loop body appends for a message whose fingerprint has not been
  seen: what \<open>process_part\<close> appends when it starts from an empty generator state.
\<close>

definition entries_for :: "base_message \<Rightarrow> entry list" where
  "entries_for m =
     out_transcript (fst (process_part \<lparr>out_transcript = [], processed_hashes = {}, yields = []\<rparr> m))"

text \<open>
  The generator state is explained by a list \<open>ms\<close> of messages with pairwise different
  fingerprints, all seen and all taken from \<open>M\<close>: the transcript is the initial one
  followed by the entries of each message of \<open>ms\<close>, in order.
\<close>

definition dedup_inv :: "entry list \<Rightarrow> base_message set \<Rightarrow> stream \<Rightarrow> bool" where
  "dedup_inv t0 M s \<longleftrightarrow>
     (\<exists>ms. distinct (map fingerprint ms) \<and> fingerprint ` set ms \<subseteq> processed_hashes s
         \<and> set ms \<subseteq> M \<and> out_transcript s = t0 @ concat (map entries_for ms))"

text \<open>
  The snapshots yielded so far are the prefixes of the transcript, one for each entry
  appended behind the first \<open>n0\<close>.
\<close>

definition snap_inv :: "nat \<Rightarrow> stream \<Rightarrow> bool" where
  "snap_inv n0 s \<longleftrightarrow>
     n0 \<le> length (out_transcript s)
     \<and> yields s = map (\<lambda>k. take k (out_transcript s)) [Suc n0..<Suc (length (out_transcript s))]"

text \<open>
  An element of the persisted history in the wire shape of the transcript: a dict with
  role \<open>user\<close> or \<open>assistant\<close> and a string as content, as \<open>_update_thread_history\<close>
  writes them.
\<close>

fun wire_shaped :: "stored \<Rightarrow> bool" where
  "wire_shaped (SDict (Some r) (Str c) md) = (r = ''user'' \<or> r = ''assistant'')"
| "wire_shaped _ = False"

text \<open>A string that neither starts nor ends with whitespace.\<close>

definition trimmed :: "string \<Rightarrow> bool" where
  "trimmed s \<longleftrightarrow> s = [] \<or> (\<not> is_space (hd s) \<and> \<not> is_space (last s))"

text \<open>
  A closed block with content \<open>fst bt\<close>, followed by the text \<open>snd bt\<close> that stands
  behind it.
\<close>

definition block_text :: "string \<times> string \<Rightarrow> string" where
  "block_text bt = ''<think>'' @ fst bt @ ''</think>'' @ snd bt"

text \<open>
  The input read from the left as the regular expression does: the text \<open>t0\<close> in front
  of the first opening tag, then the closed blocks, each with the text that follows it
  up to the next block. A block ends at the first closing tag behind its opening tag,
  the texts between two blocks hold no opening tag, and the text behind the last block
  holds no closed block.
\<close>

definition split_at_blocks :: "string \<Rightarrow> string \<Rightarrow> (string \<times> string) list \<Rightarrow> bool" where
  "split_at_blocks text t0 blocks \<longleftrightarrow>
     blocks \<noteq> []
     \<and> text = t0 @ concat (map block_text blocks)
     \<and> \<not> (\<exists>a b. t0 = a @ ''<think>'' @ b)
     \<and> (\<forall>bt\<in>set blocks. \<not> (\<exists>a b. fst bt = a @ ''</think>'' @ b))
     \<and> (\<forall>bt\<in>set (butlast blocks). \<not> (\<exists>a b. snd bt = a @ ''<think>'' @ b))
     \<and> \<not> (\<exists>x y z. snd (last blocks) = x @ ''<think>'' @ y @ ''</think>'' @ z)"

section \<open>Example inputs\<close>

definition history2 :: "stored list" where
  "history2 =
     [SDict (Some ''user'') (Str ''Hello'') [(''key'', ''value'')],
      SDict (Some ''assistant'') (Str ''Hi there!'') []]"

definition store2 :: store where
  "store2 = Map.empty(''t'' \<mapsto> \<lparr>t_content = history2, t_source = ''s'', t_group = ''g''\<rparr>)"

definition store0 :: store where
  "store0 = Map.empty(''t'' \<mapsto> \<lparr>t_content = [], t_source = ''s'', t_group = ''g''\<rparr>)"

text \<open>Eleven elements, the last of which has a role that is not converted.\<close>

definition history11 :: "stored list" where
  "history11 =
     replicate 10 (SDict (Some ''user'') (Str ''m'') []) @ [SDict (Some ''tool'') (Str ''x'') []]"

definition store11 :: store where
  "store11 = Map.empty(''t'' \<mapsto> \<lparr>t_content = history11, t_source = ''s'', t_group = ''g''\<rparr>)"

text \<open>Eleven elements in wire shape.\<close>

definition thread12 :: thread where
  "thread12 =
     \<lparr>t_content = [SDict (Some ''user'') (Str ''first'') []]
                   @ replicate 10 (SDict (Some ''assistant'') (Str ''m'') []),
      t_source = ''s'', t_group = ''g''\<rparr>"

definition store12 :: store where
  "store12 = Map.empty(''t'' \<mapsto> thread12)"

text \<open>
  The row after a first turn whose reply was ten tool outputs: the window of 10 holds
  no user message.
\<close>

definition history_tools :: "stored list" where
  "history_tools =
     [SDict (Some ''user'') (Str ''q'') [(''title'', ''User Message'')]]
       @ replicate 10 (SDict (Some ''assistant'') (Str ''out'')
                         [(''title'', ''Tool call output''), (''status'', ''done'')])"

definition store_tools :: store where
  "store_tools =
     Map.empty(''t'' \<mapsto> \<lparr>t_content = history_tools, t_source = ''s'', t_group = ''g''\<rparr>)"

text \<open>An engine that answers every query with one assistant message, in two steps.\<close>

definition example_agent :: engine where
  "example_agent ws thread_id query =
     (let known = (case ws thread_id of Some ms \<Rightarrow> ms | None \<Rightarrow> []) @ [HumanMessage (Str query) []]
      in ([known, known @ [AIMessage (Str ''<think>hm</think> yes'') []]], None))"

text \<open>An engine whose iteration fails behind its first step.\<close>

definition failing_agent :: engine where
  "failing_agent ws thread_id query =
     (let known = (case ws thread_id of Some ms \<Rightarrow> ms | None \<Rightarrow> []) @ [HumanMessage (Str query) []]
      in ([known @ [AIMessage (Str ''partial'') []]], Some (EngineError 1)))"

section \<open>Properties of the Tag Separator\<close>

lemma find_sub_None_iff:
  "find_sub pat s = None \<longleftrightarrow> \<not> (\<exists>a b. s = a @ pat @ b)"
proof (induction s)
  case Nil
  then show ?case by auto
next
  case (Cons c cs)
  show ?case
  proof (cases "prefix pat (c # cs)")
    case True
    then obtain zs where "c # cs = pat @ zs" by (auto simp: prefix_def)
    then have "c # cs = [] @ pat @ zs" by simp
    then have "\<exists>a b. c # cs = a @ pat @ b" by blast
    with True show ?thesis by simp
  next
    case False
    have "(\<exists>a b. c # cs = a @ pat @ b) \<longleftrightarrow> (\<exists>a b. cs = a @ pat @ b)"
    proof
      assume "\<exists>a b. c # cs = a @ pat @ b"
      then obtain a b where ab: "c # cs = a @ pat @ b" by blast
      show "\<exists>a b. cs = a @ pat @ b"
      proof (cases a)
        case Nil
        with ab have "prefix pat (c # cs)" by (simp add: prefix_def)
        with False show ?thesis by simp
      next
        case (Cons x a')
        with ab have "cs = a' @ pat @ b" by simp
        then show ?thesis by blast
      qed
    next
      assume "\<exists>a b. cs = a @ pat @ b"
      then obtain a b where "cs = a @ pat @ b" by blast
      then have "c # cs = (c # a) @ pat @ b" by simp
      then show "\<exists>a b. c # cs = a @ pat @ b" by blast
    qed
    moreover have "find_sub pat (c # cs) = None \<longleftrightarrow> find_sub pat cs = None"
      using False by (auto split: option.splits)
    ultimately show ?thesis
      using Cons.IH by simp
  qed
qed

text \<open>
  C9. A string in which the opening tag \<open><think>\<close> occurs nowhere (a closing tag may
  occur) is returned unchanged as the final part, with empty reasoning; separating that
  final part again gives the same pair.
\<close>

theorem separate_tag_free:
  assumes "\<not> (\<exists>a b. x = a @ ''<think>'' @ b)"
  shows "separate_ai_messages (Some x) = Inr ([], x)
       \<and> (case separate_ai_messages (Some x) of
            Inl e \<Rightarrow> Inl e
          | Inr (reasoning, final) \<Rightarrow> separate_ai_messages (Some final)) = Inr ([], x)"
proof -
  from assms have "find_sub open_tag x = None"
    by (simp add: find_sub_None_iff open_tag_def)
  then have "separate_ai_messages (Some x) = Inr ([], x)"
    by (simp add: separate_ai_messages_def search_closed_def search_open_def)
  then show ?thesis by simp
qed

theorem separate_tag_free_witness:
  "\<not> (\<exists>a b. ''Some content </think>'' = a @ ''<think>'' @ b)
   \<and> separate_ai_messages (Some ''Some content </think>'') = Inr ([], ''Some content </think>'')
   \<and> (case separate_ai_messages (Some ''Some content </think>'') of
            Inl e \<Rightarrow> Inl e
          | Inr (reasoning, final) \<Rightarrow> separate_ai_messages (Some final))
       = Inr ([], ''Some content </think>'')"
proof -
  have "find_sub ''<think>'' ''Some content </think>'' = None"
    by simp
  then have h: "\<not> (\<exists>a b. ''Some content </think>'' = a @ ''<think>'' @ b)"
    unfolding find_sub_None_iff .
  from separate_tag_free [OF h] h show ?thesis by blast
qed

section \<open>Properties of the Mode Resolver\<close>

text \<open>
  C5, as stated: with an empty persisted history the returned transcript view is empty
  whatever the query. It fails for the query \<open>Hello\<close> in mode \<open>main\<close>: the view holds the
  echoed user entry.
\<close>

theorem resolve_empty_history_counterexample:
  "update_current_state store0 Map.empty ''Hello'' ''t'' ''main'' None
     = Inr ((''Hello'',
             [\<lparr>role = ''user'', content = Str ''Hello'',
               metadata = [(''title'', ''User Message'')]\<rparr>],
             ''s'', ''g''), Map.empty)"
  by (simp add: update_current_state_def store0_def capped_history_def user_entry_def)

text \<open>
  C5, amended: with an empty persisted history, in every mode and with or without an edit
  payload, the working state is not mutated, the incoming query is returned as the
  effective query, and the transcript view is empty when the query is empty and is the
  single echoed user entry otherwise.
\<close>

theorem resolve_empty_history:
  assumes "st selected_thread = Some th" and "t_content th = []"
  shows "update_current_state st ws query selected_thread mode ed
           = Inr ((query, if query = [] then [] else [user_entry query],
                   t_source th, t_group th), ws)"
  using assms
  by (simp add: update_current_state_def capped_history_def)

theorem resolve_empty_history_witness:
  "store0 ''t'' = Some \<lparr>t_content = [], t_source = ''s'', t_group = ''g''\<rparr>
   \<and> update_current_state store0 Map.empty [] ''t'' ''undo'' None
       = Inr (([], [], ''s'', ''g''), Map.empty)"
proof -
  have h: "store0 ''t'' = Some \<lparr>t_content = [], t_source = ''s'', t_group = ''g''\<rparr>"
    by (simp add: store0_def)
  from resolve_empty_history [of store0 "''t''" _ Map.empty "[]" "''undo''" None, OF h] h
  show ?thesis by simp
qed

section \<open>Properties of the Session Orchestrator\<close>

text \<open>
  C6, as stated: a run in mode \<open>edit\<close> without an edit payload raises. It does not: on
  the two-message history the run ends without an exception.
\<close>

theorem edit_without_payload_counterexample:
  "raised (aget_agent_response example_agent store2 Map.empty ''Hello'' ''t'' ''edit'' None) = None"
  by code_simp

text \<open>
  C6, amended: a run in mode \<open>edit\<close> without an edit payload raises no validation error;
  the payload is only used when present, so the run keeps the incoming query and the
  capped history and is the run of mode \<open>main\<close> with the same query.
\<close>

theorem edit_without_payload_is_main:
  "aget_agent_response agent st ws query selected_thread ''edit'' None
     = aget_agent_response agent st ws query selected_thread ''main'' ed"
  by (simp add: aget_agent_response_def update_current_state_def Let_def
           split: option.splits)

section \<open>Properties of the Response Stream Assembler\<close>

text \<open>
  C8, as stated: the content of the entry appended for a tool message is exactly
  \<open>Content from `<tool_name>` toolcall:\n<tool_content>\<close>, with no other leading
  character. It fails for the tool \<open>search\<close> with content \<open>result\<close>: the entry that is
  appended differs from the one the claim describes.
\<close>

theorem tool_entry_counterexample:
  "out_transcript (fst (process_part \<lparr>out_transcript = [], processed_hashes = {}, yields = []\<rparr>
        (ToolMessage (Str ''result'') (Some ''search''))))
     \<noteq> [\<lparr>role = ''assistant'',
          content = Str (''Content from `search` toolcall:'' @ [CHR 0x0A] @ ''result''),
          metadata = [(''title'', ''Tool call output''), (''status'', ''done'')]\<rparr>]"
  by (simp add: process_part_def append_yield_def tool_message_out_def Let_def)

text \<open>
  C8, amended: for every tool message that is processed (its fingerprint has not been
  seen in this call), exactly one entry is appended and yielded; it has role
  \<open>assistant\<close>, metadata \<open>{title: "Tool call output", status: "done"}\<close> and as content
  one newline followed by \<open>Content from `<tool_name>` toolcall:\n<tool_content>\<close>,
  where a missing tool name is written \<open>None\<close>.
\<close>

theorem tool_entry:
  assumes "(ToolT, Str c) \<notin> processed_hashes s"
  shows "\<exists>s'. process_part s (ToolMessage (Str c) name) = (s', None)
       \<and> out_transcript s' = out_transcript s @
            [\<lparr>role = ''assistant'',
              content = Str ([CHR 0x0A] @ ''Content from `''
                               @ (case name of Some n \<Rightarrow> n | None \<Rightarrow> ''None'')
                               @ ''` toolcall:'' @ [CHR 0x0A] @ c),
              metadata = [(''title'', ''Tool call output''), (''status'', ''done'')]\<rparr>]
       \<and> yields s' = yields s @ [out_transcript s']"
  using assms
  by (simp add: process_part_def append_yield_def tool_message_out_def Let_def)

theorem tool_entry_witness:
  "(ToolT, Str ''42'') \<notin> processed_hashes \<lparr>out_transcript = [], processed_hashes = {}, yields = []\<rparr>
   \<and> (\<exists>s'. process_part \<lparr>out_transcript = [], processed_hashes = {}, yields = []\<rparr>
               (ToolMessage (Str ''42'') (Some ''calc'')) = (s', None)
        \<and> out_transcript s' =
            [\<lparr>role = ''assistant'',
              content = Str ([CHR 0x0A] @ ''Content from `calc` toolcall:'' @ [CHR 0x0A] @ ''42''),
              metadata = [(''title'', ''Tool call output''), (''status'', ''done'')]\<rparr>]
        \<and> yields s' = [out_transcript s'])"
proof -
  have h: "(ToolT, Str ''42'') \<notin> processed_hashes \<lparr>out_transcript = [], processed_hashes = {}, yields = []\<rparr>"
    by simp
  from tool_entry [OF h, of "Some ''calc''"] h show ?thesis by simp
qed

section \<open>The cap of the Mode Resolver\<close>

lemma convert_loop_take:
  "n < 10 \<Longrightarrow> convert_loop xs acc n = acc @ concat (map convert_entry (take (10 - n) xs))"
proof (induction xs arbitrary: acc n)
  case Nil
  then show ?case by simp
next
  case (Cons x xs)
  show ?case
  proof (cases "n + 1 = 10")
    case True
    then have "take (10 - n) (x # xs) = [x]" by simp
    with True show ?thesis by (simp add: Let_def)
  next
    case False
    with Cons.prems have lt: "n + 1 < 10" by simp
    have tk: "take (10 - n) (x # xs) = x # take (10 - (n + 1)) xs"
      using Cons.prems by (simp add: take_Cons')
    from False have "convert_loop (x # xs) acc n = convert_loop xs (acc @ convert_entry x) (n + 1)"
      by (simp add: Let_def)
    also have "\<dots> = (acc @ convert_entry x) @ concat (map convert_entry (take (10 - (n + 1)) xs))"
      using Cons.IH [OF lt] .
    finally show ?thesis using tk by simp
  qed
qed

lemma capped_history_last10:
  "capped_history h = concat (map convert_entry (drop (length h - 10) h))"
proof -
  have "\<And>e. rev (convert_entry e) = convert_entry e"
    by (auto simp: convert_entry_def split: stored.splits)
  then have single: "rev \<circ> convert_entry = convert_entry"
    by (simp add: fun_eq_iff)
  have "capped_history h = rev (concat (map convert_entry (take 10 (rev h))))"
    by (simp add: capped_history_def convert_loop_take)
  also have "\<dots> = concat (map convert_entry (rev (take 10 (rev h))))"
    by (simp add: rev_concat rev_map single)
  also have "rev (take 10 (rev h)) = drop (length h - 10) h"
    by (simp add: rev_take)
  finally show ?thesis .
qed


section \<open>Retry and undo\<close>

lemma find_latest_none:
  "\<forall>m\<in>set xs. type_of m \<noteq> HumanT \<Longrightarrow> find_latest xs idx acc = acc"
  by (induction xs arbitrary: idx acc) auto

lemma find_latest_last:
  "\<forall>m\<in>set post. type_of m \<noteq> HumanT \<Longrightarrow>
   find_latest (pre @ [HumanMessage c md] @ post) idx acc = Some (idx + length pre)"
  by (induction pre arbitrary: idx acc) (auto simp: find_latest_none)

lemma retry_undo_with_user:
  assumes "st selected_thread = Some th"
    and "capped_history (t_content th) = pre @ [HumanMessage (Str c) md] @ post"
    and "\<forall>m\<in>set post. type_of m \<noteq> HumanT"
  shows "update_current_state st ws query selected_thread ''retry'' ed
           = Inr ((c, to_transcript pre @ (if c = [] then [] else [user_entry c]),
                   t_source th, t_group th), update_state ws selected_thread pre)
       \<and> update_current_state st ws query selected_thread ''undo'' ed
           = Inr (([], to_transcript pre, t_source th, t_group th), ws)"
proof -
  have "find_latest (pre @ [HumanMessage (Str c) md] @ post) 0 None = Some (length pre)"
    using find_latest_last [OF assms(3), of pre "Str c" md 0 None] by simp
  with assms(1,2) show ?thesis
    by (simp add: update_current_state_def slice_to_def Let_def nth_append)
qed

lemma retry_undo_without_user:
  assumes "st selected_thread = Some th"
    and "capped_history (t_content th) \<noteq> []"
    and "\<forall>m\<in>set (capped_history (t_content th)). type_of m \<noteq> HumanT"
  shows "update_current_state st ws query selected_thread ''retry'' ed
           = Inr ((query, to_transcript (capped_history (t_content th))
                            @ (if query = [] then [] else [user_entry query]),
                   t_source th, t_group th),
                  update_state ws selected_thread (capped_history (t_content th)))
       \<and> update_current_state st ws query selected_thread ''undo'' ed
           = Inr (([], to_transcript (capped_history (t_content th)), t_source th, t_group th), ws)"
  using assms find_latest_none [OF assms(3), of 0 None]
  by (simp add: update_current_state_def slice_to_def Let_def)

lemma capped_history_human:
  assumes "m \<in> set (capped_history h)" and "type_of m = HumanT"
  shows "\<exists>c md. m = HumanMessage (Str c) md"
proof -
  from assms(1) obtain e where "m \<in> set (convert_entry e)"
    by (auto simp: capped_history_last10)
  with assms(2) show ?thesis
    by (auto simp: convert_entry_def split: stored.splits if_splits)
qed

lemma capped_history_split:
  "(\<exists>pre c md post. capped_history h = pre @ [HumanMessage (Str c) md] @ post
       \<and> (\<forall>m\<in>set post. type_of m \<noteq> HumanT))
   \<or> (\<forall>m\<in>set (capped_history h). type_of m \<noteq> HumanT)"
proof (cases "\<exists>m\<in>set (capped_history h). type_of m = HumanT")
  case True
  then have "\<exists>pre m post. capped_history h = pre @ m # post
      \<and> type_of m = HumanT \<and> (\<forall>z\<in>set post. \<not> type_of z = HumanT)"
    by (rule split_list_last_prop)
  then obtain pre m post where s: "capped_history h = pre @ m # post"
    "type_of m = HumanT" "\<forall>z\<in>set post. \<not> type_of z = HumanT"
    by blast
  from s(1) have "m \<in> set (capped_history h)" by simp
  with s(2) obtain c md where "m = HumanMessage (Str c) md"
    by (auto dest: capped_history_human)
  with s(1,3) have "capped_history h = pre @ [HumanMessage (Str c) md] @ post
      \<and> (\<forall>z\<in>set post. type_of z \<noteq> HumanT)"
    by simp
  then show ?thesis by blast
next
  case False
  then show ?thesis by blast
qed

text \<open>
  C3, as stated: for every non-empty capped history, \<open>retry\<close> truncates the list before
  its last user message and takes the content of that message as the effective query.
  It fails when the window of 10 holds no user message, as after a turn that appended
  ten tool outputs: \<open>retry\<close> with the query \<open>again\<close> keeps all ten messages and keeps
  \<open>again\<close>, which is the content of none of them.
\<close>

theorem retry_undo_counterexample:
  "capped_history history_tools
     = replicate 10 (AIMessage (Str ''out'') [(''title'', ''Tool call output''), (''status'', ''done'')])
   \<and> map_sum id fst (update_current_state store_tools Map.empty ''again'' ''t'' ''retry'' None)
     = Inr (''again'',
            replicate 10 \<lparr>role = ''assistant'', content = Str ''out'',
                           metadata = [(''title'', ''Tool call output''), (''status'', ''done'')]\<rparr>
              @ [\<lparr>role = ''user'', content = Str ''again'',
                  metadata = [(''title'', ''User Message'')]\<rparr>],
            ''s'', ''g'')"
  by code_simp

text \<open>
  C3, amended: for every non-empty capped history, one of two cases holds. Either the
  history is \<open>pre\<close>, then a user message with content \<open>c\<close>, then messages \<open>post\<close> none of
  which is a user message; then \<open>retry\<close> and \<open>undo\<close> truncate the list to \<open>pre\<close>, \<open>retry\<close>
  returns \<open>c\<close> as the effective query and hands \<open>pre\<close> to \<open>update_state\<close>, and \<open>undo\<close>
  returns the empty string and leaves the working state alone. Or the history holds no
  user message; then the list is kept whole, \<open>retry\<close> keeps the incoming query, and \<open>undo\<close>
  returns the empty string. The transcript view is the resulting list in wire shape,
  with the echoed effective query when it is non-empty.
\<close>

theorem retry_undo_resolve:
  assumes "st selected_thread = Some th"
    and "capped_history (t_content th) \<noteq> []"
  shows "(\<forall>pre c md post.
            capped_history (t_content th) = pre @ [HumanMessage (Str c) md] @ post
            \<and> (\<forall>m\<in>set post. type_of m \<noteq> HumanT) \<longrightarrow>
            update_current_state st ws query selected_thread ''retry'' ed
              = Inr ((c, to_transcript pre @ (if c = [] then [] else [user_entry c]),
                      t_source th, t_group th), update_state ws selected_thread pre)
            \<and> update_current_state st ws query selected_thread ''undo'' ed
              = Inr (([], to_transcript pre, t_source th, t_group th), ws))
       \<and> ((\<forall>m\<in>set (capped_history (t_content th)). type_of m \<noteq> HumanT) \<longrightarrow>
            update_current_state st ws query selected_thread ''retry'' ed
              = Inr ((query, to_transcript (capped_history (t_content th))
                               @ (if query = [] then [] else [user_entry query]),
                      t_source th, t_group th),
                     update_state ws selected_thread (capped_history (t_content th)))
            \<and> update_current_state st ws query selected_thread ''undo'' ed
              = Inr (([], to_transcript (capped_history (t_content th)),
                      t_source th, t_group th), ws))
       \<and> ((\<exists>pre c md post.
              capped_history (t_content th) = pre @ [HumanMessage (Str c) md] @ post
              \<and> (\<forall>m\<in>set post. type_of m \<noteq> HumanT))
            \<or> (\<forall>m\<in>set (capped_history (t_content th)). type_of m \<noteq> HumanT))"
proof (intro conjI allI impI)
  fix pre c md post
  assume a: "capped_history (t_content th) = pre @ [HumanMessage (Str c) md] @ post
     \<and> (\<forall>m\<in>set post. type_of m \<noteq> HumanT)"
  from a have a1: "capped_history (t_content th) = pre @ [HumanMessage (Str c) md] @ post"
    and a2: "\<forall>m\<in>set post. type_of m \<noteq> HumanT" by simp_all
  from retry_undo_with_user
    [where st = st and selected_thread = selected_thread and ws = ws and query = query
       and ed = ed, OF assms(1) a1 a2]
  show "update_current_state st ws query selected_thread ''retry'' ed
      = Inr ((c, to_transcript pre @ (if c = [] then [] else [user_entry c]),
              t_source th, t_group th), update_state ws selected_thread pre)"
    and "update_current_state st ws query selected_thread ''undo'' ed
      = Inr (([], to_transcript pre, t_source th, t_group th), ws)"
    by simp_all
next
  assume b: "\<forall>m\<in>set (capped_history (t_content th)). type_of m \<noteq> HumanT"
  from retry_undo_without_user
    [where st = st and selected_thread = selected_thread and ws = ws and query = query
       and ed = ed, OF assms(1,2) b]
  show "update_current_state st ws query selected_thread ''retry'' ed
      = Inr ((query, to_transcript (capped_history (t_content th))
                       @ (if query = [] then [] else [user_entry query]),
              t_source th, t_group th),
             update_state ws selected_thread (capped_history (t_content th)))"
    and "update_current_state st ws query selected_thread ''undo'' ed
      = Inr (([], to_transcript (capped_history (t_content th)),
              t_source th, t_group th), ws)"
    by simp_all
next
  show "(\<exists>pre c md post.
           capped_history (t_content th) = pre @ [HumanMessage (Str c) md] @ post
           \<and> (\<forall>m\<in>set post. type_of m \<noteq> HumanT))
        \<or> (\<forall>m\<in>set (capped_history (t_content th)). type_of m \<noteq> HumanT)"
    by (rule capped_history_split)
qed

text \<open>
  The history \<open>[user: Hello, assistant: Hi there!]\<close> of the scenarios D and E for the
  first case, the window of ten tool outputs for the second.
\<close>

theorem retry_undo_resolve_witness:
  "store2 ''t'' = Some \<lparr>t_content = history2, t_source = ''s'', t_group = ''g''\<rparr>
   \<and> capped_history history2
       = [] @ [HumanMessage (Str ''Hello'') [(''key'', ''value'')]] @ [AIMessage (Str ''Hi there!'') []]
   \<and> list_all (\<lambda>m. type_of m \<noteq> HumanT) [AIMessage (Str ''Hi there!'') []]
   \<and> update_current_state store2 Map.empty ''again'' ''t'' ''retry'' None
       = Inr ((''Hello'', [user_entry ''Hello''], ''s'', ''g''), update_state Map.empty ''t'' [])
   \<and> update_current_state store2 Map.empty ''again'' ''t'' ''undo'' None
       = Inr (([], [], ''s'', ''g''), Map.empty)
   \<and> store_tools ''t'' = Some \<lparr>t_content = history_tools, t_source = ''s'', t_group = ''g''\<rparr>
   \<and> capped_history history_tools \<noteq> []
   \<and> list_all (\<lambda>m. type_of m \<noteq> HumanT) (capped_history history_tools)
   \<and> update_current_state store_tools Map.empty ''again'' ''t'' ''retry'' None
       = Inr ((''again'', to_transcript (capped_history history_tools) @ [user_entry ''again''],
               ''s'', ''g''),
              update_state Map.empty ''t'' (capped_history history_tools))
   \<and> update_current_state store_tools Map.empty ''again'' ''t'' ''undo'' None
       = Inr (([], to_transcript (capped_history history_tools), ''s'', ''g''), Map.empty)"
proof -
  let ?th2 = "\<lparr>t_content = history2, t_source = ''s'', t_group = ''g''\<rparr>"
  let ?tht = "\<lparr>t_content = history_tools, t_source = ''s'', t_group = ''g''\<rparr>"
  have h1: "store2 ''t'' = Some ?th2"
    by (simp add: store2_def)
  have h2: "capped_history (t_content ?th2)
      = [] @ [HumanMessage (Str ''Hello'') [(''key'', ''value'')]] @ [AIMessage (Str ''Hi there!'') []]"
    by (simp add: capped_history_def history2_def convert_entry_def Let_def)
  then have n2: "capped_history (t_content ?th2) \<noteq> []"
    by simp
  have h3: "\<forall>m\<in>set [AIMessage (Str ''Hi there!'') []]. type_of m \<noteq> HumanT"
    by simp
  have g1: "store_tools ''t'' = Some ?tht"
    by (simp add: store_tools_def)
  have g2: "capped_history (t_content ?tht)
      = replicate 10 (AIMessage (Str ''out'') [(''title'', ''Tool call output''), (''status'', ''done'')])"
    by (simp add: capped_history_last10 history_tools_def convert_entry_def)
  then have nt: "capped_history (t_content ?tht) \<noteq> []"
    by simp
  from g2 have g3: "\<forall>m\<in>set (capped_history (t_content ?tht)). type_of m \<noteq> HumanT"
    by simp
  note first = retry_undo_resolve
    [where st = store2 and selected_thread = "''t''" and th = ?th2
       and ws = Map.empty and query = "''again''" and ed = None, OF h1 n2]
  note second = retry_undo_resolve
    [where st = store_tools and selected_thread = "''t''" and th = ?tht
       and ws = Map.empty and query = "''again''" and ed = None, OF g1 nt]
  from first h2 h3 have r1:
    "update_current_state store2 Map.empty ''again'' ''t'' ''retry'' None
       = Inr ((''Hello'', to_transcript [] @ (if ''Hello'' = [] then [] else [user_entry ''Hello'']),
               t_source ?th2, t_group ?th2), update_state Map.empty ''t'' [])
     \<and> update_current_state store2 Map.empty ''again'' ''t'' ''undo'' None
       = Inr (([], to_transcript [], t_source ?th2, t_group ?th2), Map.empty)"
    by blast
  from second g3 have r2:
    "update_current_state store_tools Map.empty ''again'' ''t'' ''retry'' None
       = Inr ((''again'', to_transcript (capped_history (t_content ?tht))
                            @ (if ''again'' = [] then [] else [user_entry ''again'']),
               t_source ?tht, t_group ?tht),
              update_state Map.empty ''t'' (capped_history (t_content ?tht)))
     \<and> update_current_state store_tools Map.empty ''again'' ''t'' ''undo'' None
       = Inr (([], to_transcript (capped_history (t_content ?tht)),
               t_source ?tht, t_group ?tht), Map.empty)"
    by blast
  from r1 r2 h1 h2 h3 g1 nt g3 show ?thesis
    by (simp add: list_all_iff)
qed

section \<open>Failure of a run\<close>

text \<open>
  C2. When the Mode Resolver raises \<open>e\<close>, or the resolver returns and the streaming step
  raises \<open>e\<close>, the run raises \<open>e\<close> to its caller and the persisted store after the run
  is the store before it: the write of \<open>_update_thread_history\<close> is not reached.
\<close>

theorem failure_skips_persistence:
  assumes "update_current_state st ws query selected_thread mode
             (if mode = ''main'' then None else ed) = Inl e
         \<or> (update_current_state st ws query selected_thread mode
               (if mode = ''main'' then None else ed) = Inr ((query1, view, source, grp), ws1)
            \<and> snd (astream_response agent ws1 view
                     (if mode = ''main'' then query else query1) selected_thread) = Some e)"
  shows "raised (aget_agent_response agent st ws query selected_thread mode ed) = Some e
       \<and> store_after (aget_agent_response agent st ws query selected_thread mode ed) = st"
  using assms
  by (auto simp: aget_agent_response_def Let_def split: prod.splits option.splits)

text \<open>
  A thread id that is not in the store makes the resolver raise \<open>KeyError\<close>; the engine
  \<open>failing_agent\<close> makes the streaming step raise.
\<close>

theorem failure_skips_persistence_witness:
  "update_current_state Map.empty Map.empty ''Hey'' ''t'' ''main''
       (if ''main'' = ''main'' then None else None) = Inl KeyError
   \<and> raised (aget_agent_response example_agent Map.empty Map.empty ''Hey'' ''t'' ''main'' None) = Some KeyError
   \<and> store_after (aget_agent_response example_agent Map.empty Map.empty ''Hey'' ''t'' ''main'' None) = Map.empty
   \<and> snd (astream_response failing_agent
            (update_state Map.empty ''t'' (capped_history history2))
            (to_transcript (capped_history history2) @ [user_entry ''Hey''])
            ''Hey'' ''t'') = Some (EngineError 1)
   \<and> raised (aget_agent_response failing_agent store2 Map.empty ''Hey'' ''t'' ''main'' None) = Some (EngineError 1)
   \<and> store_after (aget_agent_response failing_agent store2 Map.empty ''Hey'' ''t'' ''main'' None) = store2"
proof -
  have a: "update_current_state Map.empty Map.empty ''Hey'' ''t'' ''main''
       (if ''main'' = ''main'' then None else None) = Inl KeyError"
    by (simp add: update_current_state_def)
  have ch: "capped_history history2 \<noteq> []"
    by (simp add: capped_history_def history2_def convert_entry_def Let_def)
  have b1: "update_current_state store2 Map.empty ''Hey'' ''t'' ''main''
       (if ''main'' = ''main'' then None else None)
       = Inr ((''Hey'', to_transcript (capped_history history2) @ [user_entry ''Hey''], ''s'', ''g''),
              update_state Map.empty ''t'' (capped_history history2))"
    using ch by (simp add: update_current_state_def store2_def Let_def)
  have b2: "snd (astream_response failing_agent
            (update_state Map.empty ''t'' (capped_history history2))
            (to_transcript (capped_history history2) @ [user_entry ''Hey''])
            (if ''main'' = ''main'' then ''Hey'' else ''Hey'') ''t'') = Some (EngineError 1)"
    by code_simp
  from failure_skips_persistence [where agent = example_agent and ed = None, OF disjI1, OF a]
       failure_skips_persistence [where agent = failing_agent and ed = None, OF disjI2, OF conjI, OF b1 b2]
       a b2
  show ?thesis by simp
qed

section \<open>Deduplication in the Response Stream Assembler\<close>

lemma process_part_effect:
  "fst (process_part s m) = s
   \<or> (fingerprint m \<notin> processed_hashes s
      \<and> processed_hashes (fst (process_part s m)) = insert (fingerprint m) (processed_hashes s)
      \<and> out_transcript (fst (process_part s m)) = out_transcript s @ entries_for m)"
proof (cases "content_of m")
  case (NonStr r)
  then show ?thesis by (simp add: process_part_def)
next
  case (Str c)
  show ?thesis
  proof (cases "(type_of m, Str c) \<in> processed_hashes s")
    case True
    with Str show ?thesis by (simp add: process_part_def)
  next
    case False
    with Str show ?thesis
      by (cases m)
         (auto simp: process_part_def entries_for_def fingerprint_def append_yield_def Let_def
               split: sum.splits prod.splits)
  qed
qed


lemma process_part_dedup:
  assumes "dedup_inv t0 M s" and "m \<in> M"
  shows "dedup_inv t0 M (fst (process_part s m))"
proof -
  from assms(1) obtain ms where ms:
    "distinct (map fingerprint ms)" "fingerprint ` set ms \<subseteq> processed_hashes s"
    "set ms \<subseteq> M" "out_transcript s = t0 @ concat (map entries_for ms)"
    unfolding dedup_inv_def by blast
  from process_part_effect [of s m] show ?thesis
  proof
    assume "fst (process_part s m) = s"
    with assms(1) show ?thesis by simp
  next
    assume new: "fingerprint m \<notin> processed_hashes s
      \<and> processed_hashes (fst (process_part s m)) = insert (fingerprint m) (processed_hashes s)
      \<and> out_transcript (fst (process_part s m)) = out_transcript s @ entries_for m"
    with ms(2) have fresh: "fingerprint m \<notin> fingerprint ` set ms" by blast
    have "distinct (map fingerprint (ms @ [m]))"
      using ms(1) fresh by simp
    moreover have "fingerprint ` set (ms @ [m]) \<subseteq> processed_hashes (fst (process_part s m))"
      using ms(2) new by auto
    moreover have "set (ms @ [m]) \<subseteq> M"
      using ms(3) assms(2) by simp
    moreover have "out_transcript (fst (process_part s m)) = t0 @ concat (map entries_for (ms @ [m]))"
      using ms(4) new by simp
    ultimately show ?thesis
      unfolding dedup_inv_def by blast
  qed
qed

lemma process_parts_dedup:
  "dedup_inv t0 M s \<Longrightarrow> set ps \<subseteq> M \<Longrightarrow> dedup_inv t0 M (fst (process_parts s ps))"
proof (induction ps arbitrary: s)
  case Nil
  then show ?case by simp
next
  case (Cons p ps)
  from Cons.prems have step: "dedup_inv t0 M (fst (process_part s p))"
    by (simp add: process_part_dedup)
  obtain s' err where r: "process_part s p = (s', err)" by (cases "process_part s p")
  with step have s': "dedup_inv t0 M s'" by simp
  show ?case
  proof (cases err)
    case None
    with r Cons.IH [OF s'] Cons.prems(2) show ?thesis by simp
  next
    case (Some e)
    with r s' show ?thesis by simp
  qed
qed

lemma step_loop_dedup:
  "dedup_inv t0 M s \<Longrightarrow> \<Union> (set ` set steps) \<subseteq> M \<Longrightarrow>
   dedup_inv t0 M (fst (step_loop cnt q s steps))"
proof (induction steps arbitrary: s)
  case Nil
  then show ?case by simp
next
  case (Cons st steps)
  have "set (valid_new_messages cnt q st) \<subseteq> set st"
    by (auto simp: valid_new_messages_def dest: in_set_dropD)
  with Cons.prems(2) have sub: "set (valid_new_messages cnt q st) \<subseteq> M" by auto
  obtain s' err where r: "process_parts s (valid_new_messages cnt q st) = (s', err)"
    by (cases "process_parts s (valid_new_messages cnt q st)")
  from process_parts_dedup [OF Cons.prems(1) sub] r have s': "dedup_inv t0 M s'" by simp
  show ?case
  proof (cases err)
    case None
    from Cons.prems(2) have "\<Union> (set ` set steps) \<subseteq> M" by auto
    with r None Cons.IH [OF s'] show ?thesis by simp
  next
    case (Some e)
    with r s' show ?thesis by simp
  qed
qed

lemma snap_inv_append_yield: "snap_inv n0 s \<Longrightarrow> snap_inv n0 (append_yield s e)"
  by (auto simp: snap_inv_def append_yield_def)

lemma snap_inv_hashes: "snap_inv n0 s \<Longrightarrow> snap_inv n0 (s\<lparr>processed_hashes := h\<rparr>)"
  by (simp add: snap_inv_def)

lemma process_part_snap: "snap_inv n0 s \<Longrightarrow> snap_inv n0 (fst (process_part s m))"
  by (cases m)
     (auto simp: process_part_def Let_def snap_inv_append_yield snap_inv_hashes
           split: content.splits sum.splits prod.splits)

lemma process_parts_snap: "snap_inv n0 s \<Longrightarrow> snap_inv n0 (fst (process_parts s ps))"
proof (induction ps arbitrary: s)
  case Nil
  then show ?case by simp
next
  case (Cons p ps)
  obtain s' err where r: "process_part s p = (s', err)" by (cases "process_part s p")
  with process_part_snap [OF Cons.prems, of p] have s': "snap_inv n0 s'" by simp
  with r Cons.IH [OF s'] show ?case by (cases err) simp_all
qed

lemma step_loop_snap: "snap_inv n0 s \<Longrightarrow> snap_inv n0 (fst (step_loop cnt q s steps))"
proof (induction steps arbitrary: s)
  case Nil
  then show ?case by simp
next
  case (Cons st steps)
  obtain s' err where r: "process_parts s (valid_new_messages cnt q st) = (s', err)"
    by (cases "process_parts s (valid_new_messages cnt q st)")
  with process_parts_snap [OF Cons.prems, of "valid_new_messages cnt q st"]
  have s': "snap_inv n0 s'" by simp
  with r Cons.IH [OF s'] show ?case by (cases err) simp_all
qed

lemma astream_response_inv:
  "dedup_inv transcript (\<Union> (set ` set (fst (agent ws selected_thread query))))
     (fst (astream_response agent ws transcript query selected_thread))
   \<and> snap_inv (length transcript) (fst (astream_response agent ws transcript query selected_thread))"
proof -
  let ?s0 = "\<lparr>out_transcript = transcript, processed_hashes = {}, yields = []\<rparr>"
  let ?M = "\<Union> (set ` set (fst (agent ws selected_thread query)))"
  let ?R = "fst (astream_response agent ws transcript query selected_thread)"
  have d0: "dedup_inv transcript ?M ?s0"
    unfolding dedup_inv_def by (rule exI [of _ "[]"]) simp
  have y0: "snap_inv (length transcript) ?s0"
    by (simp add: snap_inv_def)
  show ?thesis
  proof (cases "query = []")
    case True
    with d0 y0 show ?thesis by (simp add: astream_response_def)
  next
    case False
    obtain steps failure where a: "agent ws selected_thread query = (steps, failure)"
      by (cases "agent ws selected_thread query")
    let ?cnt = "case ws selected_thread of Some ms \<Rightarrow> length ms | None \<Rightarrow> 0"
    obtain s err where l: "step_loop ?cnt query ?s0 steps = (s, err)"
      by (cases "step_loop ?cnt query ?s0 steps")
    from a have "\<Union> (set ` set steps) \<subseteq> ?M" by simp
    from step_loop_dedup [OF d0 this, of ?cnt query] step_loop_snap [OF y0, of ?cnt query steps] l
    have "dedup_inv transcript ?M s \<and> snap_inv (length transcript) s" by simp
    moreover from False a l have "?R = s"
      by (cases err) (simp_all add: astream_response_def Let_def)
    ultimately show ?thesis by simp
  qed
qed

text \<open>
  C7. In one call of the assembler, whatever the engine emits, the transcript grows by the
  entries of a list of messages of the steps whose fingerprints (kind, content) are
  pairwise different: a fingerprint that occurs in several cumulative steps contributes
  its entries once. The yielded snapshots are the successive prefixes of that transcript,
  one per appended entry, so no entry is appended or yielded a second time.
\<close>

theorem dedup_once_per_call:
  "\<exists>ms. distinct (map fingerprint ms)
      \<and> set ms \<subseteq> \<Union> (set ` set (fst (agent ws selected_thread query)))
      \<and> out_transcript (fst (astream_response agent ws transcript query selected_thread))
          = transcript @ concat (map entries_for ms)
      \<and> yields (fst (astream_response agent ws transcript query selected_thread))
          = map (\<lambda>k. take k (transcript @ concat (map entries_for ms)))
              [Suc (length transcript)..<Suc (length (transcript @ concat (map entries_for ms)))]"
  using astream_response_inv [of transcript agent ws selected_thread query]
  unfolding dedup_inv_def snap_inv_def by auto

section \<open>Sliding window of a turn in mode \<open>main\<close>\<close>

lemma to_transcript_append: "to_transcript (xs @ ys) = to_transcript xs @ to_transcript ys"
  by (induction xs) auto

lemma wire_shaped_roundtrip:
  "wire_shaped e \<Longrightarrow> map stored_of (to_transcript (convert_entry e)) = [e]"
  by (cases e rule: wire_shaped.cases) (auto simp: convert_entry_def stored_of_def)

lemma wire_history_roundtrip:
  "list_all wire_shaped xs \<Longrightarrow> map stored_of (to_transcript (concat (map convert_entry xs))) = xs"
  by (induction xs) (auto simp: to_transcript_append wire_shaped_roundtrip)

lemma prefixes_shift:
  "map (\<lambda>k. take k (v @ n)) [Suc (length v)..<Suc (length (v @ n))]
     = map (\<lambda>k. v @ take k n) [Suc 0..<Suc (length n)]"
proof (rule nth_equalityI)
  show "length (map (\<lambda>k. take k (v @ n)) [Suc (length v)..<Suc (length (v @ n))])
      = length (map (\<lambda>k. v @ take k n) [Suc 0..<Suc (length n)])"
    by (simp del: upt_Suc)
next
  fix i
  assume "i < length (map (\<lambda>k. take k (v @ n)) [Suc (length v)..<Suc (length (v @ n))])"
  then have i: "i < length n" by (simp del: upt_Suc)
  then show "map (\<lambda>k. take k (v @ n)) [Suc (length v)..<Suc (length (v @ n))] ! i
      = map (\<lambda>k. v @ take k n) [Suc 0..<Suc (length n)] ! i"
    by (simp del: upt_Suc)
qed

lemma prefixes_from_view:
  "v # map (\<lambda>k. take k (v @ n)) [Suc (length v)..<Suc (length (v @ n))]
     = map (\<lambda>k. v @ take k n) [0..<Suc (length n)]"
proof -
  have "[0..<Suc (length n)] = 0 # [Suc 0..<Suc (length n)]"
    by (rule upt_conv_Cons) simp
  then show ?thesis
    by (simp only: prefixes_shift list.map take_0 append_Nil2)
qed

text \<open>
  C1, as stated: for every persisted history of more than 10 messages, a successful
  turn in mode \<open>main\<close> persists exactly the last 10 of them followed by the messages of
  the turn. It fails for a history of 11 elements that ends with an element of role
  \<open>tool\<close>: that element is one of the last 10, it is counted by the cap and not
  converted, and the persisted transcript keeps only 9 of the old messages.
\<close>

theorem main_turn_window_counterexample:
  "length history11 = 11
   \<and> raised (aget_agent_response example_agent store11 Map.empty ''Hey'' ''t'' ''main'' None) = None
   \<and> map_option t_content
        (store_after (aget_agent_response example_agent store11 Map.empty ''Hey'' ''t'' ''main'' None) ''t'')
       = Some (replicate 9 (SDict (Some ''user'') (Str ''m'') [])
               @ [SDict (Some ''user'') (Str ''Hey'') [(''title'', ''User Message'')],
                  SDict (Some ''assistant'') (Str ''hm'')
                    [(''title'', ''Assistant Thinking...''), (''status'', ''done'')],
                  SDict (Some ''assistant'') (Str ''yes'') [(''title'', ''Assistant Message'')]])"
  by code_simp

text \<open>
  C1, amended: for every persisted history of more than 10 elements whose last 10
  elements are in wire shape, consider a turn in mode \<open>main\<close> that raises nothing. The
  resolver's view is these 10 elements followed by the echoed user entry (when the query
  is non-empty). The snapshots that the run yields are the view and then, one appended
  entry at a time, the prefixes of a final transcript, which is the transcript the
  assembler ends with; so the entries behind the view in the last snapshot are exactly
  the streamed entries. They are the entries of messages of the engine's steps with
  pairwise different fingerprints. The row of the thread afterwards holds exactly the 10
  elements, followed by the echoed user entry and all streamed entries; source and group
  are kept, no other row changes, and the older elements are gone.
\<close>

theorem main_turn_window:
  assumes "st selected_thread = Some th"
    and "10 < length (t_content th)"
    and "list_all wire_shaped (drop (length (t_content th) - 10) (t_content th))"
    and "raised (aget_agent_response agent st ws query selected_thread ''main'' ed) = None"
  shows "\<exists>ms streamed.
         distinct (map fingerprint ms)
       \<and> set ms \<subseteq> \<Union> (set ` set (fst (agent (update_state ws selected_thread
                                             (capped_history (t_content th))) selected_thread query)))
       \<and> streamed = concat (map entries_for ms)
       \<and> map stored_of (to_transcript (capped_history (t_content th)))
           = drop (length (t_content th) - 10) (t_content th)
       \<and> out_transcript (fst (astream_response agent
             (update_state ws selected_thread (capped_history (t_content th)))
             (to_transcript (capped_history (t_content th))
                @ (if query = [] then [] else [user_entry query]))
             query selected_thread))
           = to_transcript (capped_history (t_content th))
               @ (if query = [] then [] else [user_entry query]) @ streamed
       \<and> yielded (aget_agent_response agent st ws query selected_thread ''main'' ed)
           = map (\<lambda>k. to_transcript (capped_history (t_content th))
                         @ (if query = [] then [] else [user_entry query]) @ take k streamed)
               [0..<Suc (length streamed)]
       \<and> store_after (aget_agent_response agent st ws query selected_thread ''main'' ed)
           = st(selected_thread \<mapsto>
               \<lparr>t_content = drop (length (t_content th) - 10) (t_content th)
                    @ map stored_of ((if query = [] then [] else [user_entry query]) @ streamed),
                t_source = t_source th, t_group = t_group th\<rparr>)"
proof -
  let ?h = "t_content th"
  let ?last = "drop (length ?h - 10) ?h"
  let ?capped = "capped_history ?h"
  let ?echo = "if query = [] then [] else [user_entry query]"
  let ?view = "to_transcript ?capped @ ?echo"
  let ?ws1 = "update_state ws selected_thread ?capped"
  let ?R = "astream_response agent ?ws1 ?view query selected_thread"
  let ?run = "aget_agent_response agent st ws query selected_thread ''main'' ed"
  have capped: "?capped = concat (map convert_entry ?last)"
    by (rule capped_history_last10)
  have rt: "map stored_of (to_transcript ?capped) = ?last"
    using assms(3) by (simp add: capped wire_history_roundtrip)
  from assms(2) have "?last \<noteq> []" by simp
  with rt have ne: "?capped \<noteq> []" by auto
  have res: "update_current_state st ws query selected_thread ''main'' None
      = Inr ((query, ?view, t_source th, t_group th), ?ws1)"
    using assms(1) ne by (simp add: update_current_state_def Let_def)
  obtain s err where r: "?R = (s, err)" by (cases ?R)
  from assms(4) res r have err: "err = None"
    by (cases err) (simp_all add: aget_agent_response_def)
  from res r err have after:
    "store_after ?run
       = update_thread_history st (out_transcript s) (t_group th) (t_source th) selected_thread"
    and ys: "yielded ?run = ?view # yields s"
    by (simp_all add: aget_agent_response_def)
  from astream_response_inv [of ?view agent ?ws1 selected_thread query] r
  obtain ms where ms: "distinct (map fingerprint ms)"
    "set ms \<subseteq> \<Union> (set ` set (fst (agent ?ws1 selected_thread query)))"
    "out_transcript s = ?view @ concat (map entries_for ms)"
    and snap: "snap_inv (length ?view) s"
    unfolding dedup_inv_def by auto
  let ?new = "concat (map entries_for ms)"
  have "map stored_of (out_transcript s) = ?last @ map stored_of (?echo @ ?new)"
    using ms(3) rt by simp
  with after have st': "store_after ?run
       = st(selected_thread \<mapsto>
               \<lparr>t_content = ?last @ map stored_of (?echo @ ?new),
                t_source = t_source th, t_group = t_group th\<rparr>)"
    by (simp add: update_thread_history_def)
  have "yields s = map (\<lambda>k. take k (?view @ ?new)) [Suc (length ?view)..<Suc (length (?view @ ?new))]"
    using snap ms(3) by (simp add: snap_inv_def del: upt_Suc)
  then have "?view # yields s = map (\<lambda>k. ?view @ take k ?new) [0..<Suc (length ?new)]"
    by (simp only: prefixes_from_view)
  with ys have y': "yielded ?run
       = map (\<lambda>k. to_transcript ?capped @ ?echo @ take k ?new) [0..<Suc (length ?new)]"
    by (simp del: upt_Suc)
  from r ms(3) have o': "out_transcript (fst ?R) = to_transcript ?capped @ ?echo @ ?new"
    by simp
  from ms(1,2) rt o' y' st' show ?thesis by blast
qed

text \<open>
  The engine \<open>example_agent\<close> on a row of eleven elements in wire shape: the first
  element is gone, and the row ends with the echoed query and the two streamed entries.
\<close>

theorem main_turn_window_witness:
  "store12 ''t'' = Some thread12
   \<and> 10 < length (t_content thread12)
   \<and> list_all wire_shaped (drop (length (t_content thread12) - 10) (t_content thread12))
   \<and> raised (aget_agent_response example_agent store12 Map.empty ''Hey'' ''t'' ''main'' None) = None
   \<and> (\<exists>ms streamed.
         distinct (map fingerprint ms)
       \<and> set ms \<subseteq> \<Union> (set ` set (fst (example_agent (update_state Map.empty ''t''
                                             (capped_history (t_content thread12))) ''t'' ''Hey'')))
       \<and> streamed = concat (map entries_for ms)
       \<and> yielded (aget_agent_response example_agent store12 Map.empty ''Hey'' ''t'' ''main'' None)
           = map (\<lambda>k. to_transcript (capped_history (t_content thread12))
                         @ (if ''Hey'' = [] then [] else [user_entry ''Hey'']) @ take k streamed)
               [0..<Suc (length streamed)]
       \<and> store_after (aget_agent_response example_agent store12 Map.empty ''Hey'' ''t'' ''main'' None)
           = store12(''t'' \<mapsto>
               \<lparr>t_content = drop (length (t_content thread12) - 10) (t_content thread12)
                    @ map stored_of ((if ''Hey'' = [] then [] else [user_entry ''Hey'']) @ streamed),
                t_source = t_source thread12, t_group = t_group thread12\<rparr>))
   \<and> map_option t_content
        (store_after (aget_agent_response example_agent store12 Map.empty ''Hey'' ''t'' ''main'' None) ''t'')
       = Some (replicate 10 (SDict (Some ''assistant'') (Str ''m'') [])
               @ [SDict (Some ''user'') (Str ''Hey'') [(''title'', ''User Message'')],
                  SDict (Some ''assistant'') (Str ''hm'')
                    [(''title'', ''Assistant Thinking...''), (''status'', ''done'')],
                  SDict (Some ''assistant'') (Str ''yes'') [(''title'', ''Assistant Message'')]])"
proof -
  have h1: "store12 ''t'' = Some thread12"
    by (simp add: store12_def)
  have h2: "10 < length (t_content thread12)"
    by (simp add: thread12_def)
  have h3: "list_all wire_shaped (drop (length (t_content thread12) - 10) (t_content thread12))"
    by (simp add: thread12_def list_all_iff)
  have h4: "raised (aget_agent_response example_agent store12 Map.empty ''Hey'' ''t'' ''main'' None) = None"
    by code_simp
  have v: "map_option t_content
        (store_after (aget_agent_response example_agent store12 Map.empty ''Hey'' ''t'' ''main'' None) ''t'')
       = Some (replicate 10 (SDict (Some ''assistant'') (Str ''m'') [])
               @ [SDict (Some ''user'') (Str ''Hey'') [(''title'', ''User Message'')],
                  SDict (Some ''assistant'') (Str ''hm'')
                    [(''title'', ''Assistant Thinking...''), (''status'', ''done'')],
                  SDict (Some ''assistant'') (Str ''yes'') [(''title'', ''Assistant Message'')]])"
    by code_simp
  from main_turn_window [OF h1 h2 h3 h4] h1 h2 h3 h4 v
  show ?thesis by blast
qed

section \<open>Closed blocks in the Tag Separator\<close>

lemma find_sub_first:
  assumes "pat \<noteq> []" and "hd pat \<notin> set (tl pat)"
    and "\<not> (\<exists>a b. pre = a @ pat @ b)"
  shows "find_sub pat (pre @ pat @ rest) = Some (pre, rest)"
  using assms(3)
proof (induction pre)
  case Nil
  from assms(1) obtain p ps where p: "pat = p # ps" by (cases pat) auto
  then have "find_sub pat (pat @ rest) = Some ([], drop (length pat) (pat @ rest))"
    by simp
  then show ?case by simp
next
  case (Cons c cs)
  have np: "\<not> prefix pat ((c # cs) @ pat @ rest)"
  proof
    assume "prefix pat ((c # cs) @ pat @ rest)"
    then have "prefix pat (c # cs) \<or> (\<exists>us. pat = (c # cs) @ us \<and> prefix us (pat @ rest))"
      unfolding prefix_append .
    then consider "prefix pat (c # cs)"
      | us where "pat = (c # cs) @ us" "prefix us (pat @ rest)"
      by blast
    then show False
    proof cases
      case 1
      then obtain b where "c # cs = [] @ pat @ b" by (auto simp: prefix_def)
      with Cons.prems show False by blast
    next
      case 2
      show False
      proof (cases us)
        case Nil
        with 2 have "c # cs = [] @ pat @ []" by simp
        with Cons.prems show False by blast
      next
        case (Cons u us')
        with 2(2) assms(1) have "u = hd pat"
          by (cases pat) (auto simp: prefix_def)
        moreover from 2(1) Cons have "u \<in> set (tl pat)" by simp
        ultimately show False using assms(2) by simp
      qed
    qed
  qed
  have "\<not> (\<exists>a b. cs = a @ pat @ b)"
  proof
    assume "\<exists>a b. cs = a @ pat @ b"
    then obtain a b where "cs = a @ pat @ b" by blast
    then have "c # cs = (c # a) @ pat @ b" by simp
    with Cons.prems show False by blast
  qed
  with Cons.IH have "find_sub pat (cs @ pat @ rest) = Some (cs, rest)" by simp
  with np show ?case by simp
qed

lemma search_closed_first:
  assumes "\<not> (\<exists>a b. pre = a @ ''<think>'' @ b)"
    and "\<not> (\<exists>a b. inner = a @ ''</think>'' @ b)"
  shows "search_closed (pre @ ''<think>'' @ inner @ ''</think>'' @ post) = Some (pre, inner, post)"
proof -
  have "find_sub open_tag (pre @ open_tag @ (inner @ close_tag @ post)) = Some (pre, inner @ close_tag @ post)"
    using assms(1) by (intro find_sub_first) (simp_all add: open_tag_def)
  moreover have "find_sub close_tag (inner @ close_tag @ post) = Some (inner, post)"
    using assms(2) by (intro find_sub_first) (simp_all add: close_tag_def)
  ultimately show ?thesis
    by (simp add: search_closed_def open_tag_def close_tag_def)
qed

text \<open>
  C4, as stated: the final part is the input with all closed blocks removed, trimmed.
  It fails for \<open>a <think>x</think> b\<close>: removing the block and trimming leaves
  \<open>a  b\<close>, with the two blanks that stood around the block, while the code returns \<open>ab\<close>.
\<close>

theorem separate_closed_counterexample:
  "separate_ai_messages (Some ''a <think>x</think> b'') = Inr (''x'', ''ab'')
   \<and> spec_final ''a <think>x</think> b'' = ''a  b''"
  by (simp add: separate_ai_messages_def search_closed_def open_tag_def close_tag_def
        sub_closed.simps spec_final_def spec_remove_blocks.simps
        strip_def lstrip_def rstrip_def is_space_def)

subsection \<open>Trimming\<close>

lemma rstrip_split: "\<exists>r. (\<forall>c\<in>set r. is_space c) \<and> z = rstrip z @ r"
proof -
  have "rev z = takeWhile is_space (rev z) @ dropWhile is_space (rev z)"
    by simp
  then have "z = rev (dropWhile is_space (rev z)) @ rev (takeWhile is_space (rev z))"
    by (metis rev_append rev_rev_ident)
  moreover have "\<forall>c\<in>set (rev (takeWhile is_space (rev z))). is_space c"
    by (auto dest: set_takeWhileD)
  ultimately show ?thesis
    unfolding rstrip_def by blast
qed

lemma lstrip_split: "\<exists>l. (\<forall>c\<in>set l. is_space c) \<and> z = l @ lstrip z"
proof -
  have "z = takeWhile is_space z @ dropWhile is_space z" by simp
  moreover have "\<forall>c\<in>set (takeWhile is_space z). is_space c"
    by (auto dest: set_takeWhileD)
  ultimately show ?thesis
    unfolding lstrip_def by blast
qed

lemma rstrip_last: "rstrip z \<noteq> [] \<Longrightarrow> \<not> is_space (last (rstrip z))"
  unfolding rstrip_def
  by (metis hd_dropWhile last_rev rev_is_Nil_conv)

lemma trimmed_strip: "trimmed (strip z)"
proof (cases "strip z = []")
  case True
  then show ?thesis by (simp add: trimmed_def)
next
  case False
  then have ne: "dropWhile is_space (rstrip z) \<noteq> []"
    by (simp add: strip_def lstrip_def)
  then have h: "\<not> is_space (hd (strip z))"
    unfolding strip_def lstrip_def by (rule hd_dropWhile)
  from ne have rne: "rstrip z \<noteq> []" by auto
  obtain l where l: "rstrip z = l @ strip z"
    using lstrip_split [of "rstrip z"] by (auto simp: strip_def)
  with False have "last (strip z) = last (rstrip z)" by simp
  with rstrip_last [OF rne] have "\<not> is_space (last (strip z))" by simp
  with h show ?thesis by (simp add: trimmed_def)
qed

lemma strip_split:
  "\<exists>l r. (\<forall>c\<in>set l. is_space c) \<and> (\<forall>c\<in>set r. is_space c) \<and> z = l @ strip z @ r"
proof -
  obtain r where r: "\<forall>c\<in>set r. is_space c" "z = rstrip z @ r"
    using rstrip_split by blast
  obtain l where l: "\<forall>c\<in>set l. is_space c" "rstrip z = l @ strip z"
    using lstrip_split [of "rstrip z"] by (auto simp: strip_def)
  from r l have "z = l @ strip z @ r" by simp
  with r(1) l(1) show ?thesis by blast
qed

lemma lstrip_spaces_trimmed:
  assumes "\<forall>c\<in>set l. is_space c" and "\<forall>c\<in>set r. is_space c" and "trimmed T"
  shows "lstrip (l @ T @ r) = (if T = [] then [] else T @ r)"
proof (cases "T = []")
  case True
  with assms(1,2) show ?thesis
    by (auto simp: lstrip_def)
next
  case False
  with assms(3) have "\<not> is_space (hd T)" by (simp add: trimmed_def)
  with False have "dropWhile is_space (T @ r) = T @ r"
    by (cases T) auto
  with assms(1) False show ?thesis
    by (simp add: lstrip_def dropWhile_append)
qed

lemma rstrip_spaces_trimmed:
  assumes "\<forall>c\<in>set l. is_space c" and "\<forall>c\<in>set r. is_space c" and "trimmed T"
  shows "rstrip (l @ T @ r) = (if T = [] then [] else l @ T)"
proof (cases "T = []")
  case True
  with assms(1,2) show ?thesis
    by (auto simp: rstrip_def)
next
  case False
  with assms(3) have "\<not> is_space (last T)" by (simp add: trimmed_def)
  with False have "\<not> is_space (hd (rev T))" by (simp add: hd_rev)
  with False have "dropWhile is_space (rev T @ rev l) = rev T @ rev l"
    by (cases "rev T") auto
  with assms(2) False show ?thesis
    by (simp add: rstrip_def dropWhile_append)
qed

lemma strip_spaces_trimmed:
  assumes "\<forall>c\<in>set l. is_space c" and "\<forall>c\<in>set r. is_space c" and "trimmed T"
  shows "strip (l @ T @ r) = T"
proof (cases "T = []")
  case True
  with rstrip_spaces_trimmed [OF assms] have "rstrip (l @ T @ r) = []" by simp
  with True show ?thesis
    by (simp add: strip_def lstrip_def)
next
  case False
  have "lstrip (l @ T @ []) = T"
    using lstrip_spaces_trimmed [OF assms(1) _ assms(3), of "[]"] False by simp
  with assms False show ?thesis
    by (simp add: strip_def rstrip_spaces_trimmed)
qed

lemma lstrip_strip: "\<exists>r. (\<forall>c\<in>set r. is_space c) \<and> lstrip z = strip z @ r"
proof -
  obtain l r where lr: "\<forall>c\<in>set l. is_space c" "\<forall>c\<in>set r. is_space c" "z = l @ strip z @ r"
    using strip_split by blast
  have "lstrip (l @ strip z @ r) = (if strip z = [] then [] else strip z @ r)"
    using lr(1,2) trimmed_strip by (rule lstrip_spaces_trimmed)
  with lr(3) have "lstrip z = (if strip z = [] then [] else strip z @ r)" by simp
  then show ?thesis
    using lr(2) by (cases "strip z = []") auto
qed

lemma rstrip_strip: "\<exists>l. (\<forall>c\<in>set l. is_space c) \<and> rstrip z = l @ strip z"
  using lstrip_split [of "rstrip z"] by (auto simp: strip_def)

lemma rstrip_lstrip: "rstrip (lstrip z) = strip z"
proof -
  obtain r where r: "\<forall>c\<in>set r. is_space c" "lstrip z = strip z @ r"
    using lstrip_strip by blast
  have "rstrip ([] @ strip z @ r) = (if strip z = [] then [] else [] @ strip z)"
    using _ r(1) trimmed_strip by (rule rstrip_spaces_trimmed) simp
  with r(2) show ?thesis by simp
qed

lemma trimmed_append: "trimmed x \<Longrightarrow> trimmed y \<Longrightarrow> trimmed (x @ y)"
  by (auto simp: trimmed_def hd_append last_append)

lemma trimmed_concat: "\<forall>x\<in>set xs. trimmed x \<Longrightarrow> trimmed (concat xs)"
proof (induction xs)
  case Nil
  then show ?case by (simp add: trimmed_def)
next
  case (Cons x xs)
  then have "trimmed x" "trimmed (concat xs)" by simp_all
  then show ?case by (simp add: trimmed_append)
qed

lemma strip_around:
  assumes "trimmed M"
  shows "strip (rstrip a @ M @ lstrip z) = strip a @ M @ strip z"
proof -
  obtain l where l: "\<forall>c\<in>set l. is_space c" "rstrip a = l @ strip a"
    using rstrip_strip by blast
  obtain r where r: "\<forall>c\<in>set r. is_space c" "lstrip z = strip z @ r"
    using lstrip_strip by blast
  have t: "trimmed (strip a @ M @ strip z)"
    using assms by (simp add: trimmed_append trimmed_strip)
  have "strip (l @ (strip a @ M @ strip z) @ r) = strip a @ M @ strip z"
    using l(1) r(1) t by (rule strip_spaces_trimmed)
  with l(2) r(2) show ?thesis by simp
qed


subsection \<open>Removing the closed blocks\<close>

lemma find_sub_sound: "find_sub pat s = Some (a, b) \<Longrightarrow> s = a @ pat @ b"
proof (induction s arbitrary: a b)
  case Nil
  then show ?case by (simp split: if_splits)
next
  case (Cons c cs)
  show ?case
  proof (cases "prefix pat (c # cs)")
    case True
    then obtain zs where zs: "c # cs = pat @ zs" by (auto simp: prefix_def)
    from True Cons.prems have "a = []" "b = drop (length pat) (c # cs)" by auto
    with zs show ?thesis by simp
  next
    case False
    with Cons.prems obtain a' where "find_sub pat cs = Some (a', b)" "a = c # a'"
      by (auto split: option.splits)
    with Cons.IH show ?thesis by simp
  qed
qed

lemma search_closed_sound:
  assumes "search_closed t = Some (p, i, q)"
  shows "t = p @ ''<think>'' @ i @ ''</think>'' @ q"
proof -
  from assms obtain rest where
    r: "find_sub open_tag t = Some (p, rest)" "find_sub close_tag rest = Some (i, q)"
    by (auto simp: search_closed_def split: option.splits)
  from find_sub_sound [OF r(1)] find_sub_sound [OF r(2)] show ?thesis
    by (simp add: open_tag_def close_tag_def)
qed

lemma no_closed_search:
  assumes "\<not> (\<exists>x y z. t = x @ ''<think>'' @ y @ ''</think>'' @ z)"
  shows "search_closed t = None"
proof (cases "search_closed t")
  case None
  then show ?thesis .
next
  case (Some r)
  then obtain p i q where "search_closed t = Some (p, i, q)" by (cases r) auto
  from search_closed_sound [OF this] assms show ?thesis by blast
qed

lemma sub_closed_none: "search_closed t = None \<Longrightarrow> sub_closed t = t"
  by (subst sub_closed.simps) simp

lemma no_open_lstrip:
  assumes "\<not> (\<exists>a b. t = a @ pat @ b)"
  shows "\<not> (\<exists>a b. lstrip t = a @ pat @ b)"
proof
  assume "\<exists>a b. lstrip t = a @ pat @ b"
  then obtain a b where ab: "lstrip t = a @ pat @ b" by blast
  obtain l where "t = l @ lstrip t" using lstrip_split by blast
  with ab have "t = (l @ a) @ pat @ b" by simp
  with assms show False by blast
qed

lemma no_closed_lstrip:
  assumes "\<not> (\<exists>x y z. t = x @ ''<think>'' @ y @ ''</think>'' @ z)"
  shows "\<not> (\<exists>x y z. lstrip t = x @ ''<think>'' @ y @ ''</think>'' @ z)"
proof
  assume "\<exists>x y z. lstrip t = x @ ''<think>'' @ y @ ''</think>'' @ z"
  then obtain x y z where xyz: "lstrip t = x @ ''<think>'' @ y @ ''</think>'' @ z" by blast
  obtain l where "t = l @ lstrip t" using lstrip_split by blast
  with xyz have "t = (l @ x) @ ''<think>'' @ y @ ''</think>'' @ z" by simp
  with assms show False by blast
qed

lemma lstrip_before_block:
  "lstrip (t @ block_text bt @ rest) = lstrip t @ block_text bt @ rest"
proof -
  have "dropWhile is_space (block_text bt @ rest) = block_text bt @ rest"
    by (simp add: block_text_def is_space_def)
  then show ?thesis
    by (auto simp: lstrip_def dropWhile_append dropWhile_eq_Nil_conv)
qed

lemma sub_closed_blocks:
  assumes "blocks \<noteq> []"
    and "\<not> (\<exists>a b. t0 = a @ ''<think>'' @ b)"
    and "\<forall>bt\<in>set blocks. \<not> (\<exists>a b. fst bt = a @ ''</think>'' @ b)"
    and "\<forall>bt\<in>set (butlast blocks). \<not> (\<exists>a b. snd bt = a @ ''<think>'' @ b)"
    and "\<not> (\<exists>x y z. snd (last blocks) = x @ ''<think>'' @ y @ ''</think>'' @ z)"
  shows "sub_closed (t0 @ concat (map block_text blocks))
           = rstrip t0 @ concat (map (\<lambda>bt. strip (snd bt)) (butlast blocks))
               @ lstrip (snd (last blocks))"
  using assms
proof (induction blocks arbitrary: t0)
  case Nil
  then show ?case by simp
next
  case (Cons bt rest)
  from Cons.prems(3) have nb: "\<not> (\<exists>a b. fst bt = a @ ''</think>'' @ b)" by simp
  have m: "search_closed (t0 @ ''<think>'' @ fst bt @ ''</think>'' @ (snd bt @ concat (map block_text rest)))
      = Some (t0, fst bt, snd bt @ concat (map block_text rest))"
    using Cons.prems(2) nb by (rule search_closed_first)
  then have step: "sub_closed (t0 @ concat (map block_text (bt # rest)))
      = rstrip t0 @ sub_closed (lstrip (snd bt @ concat (map block_text rest)))"
    by (subst sub_closed.simps) (simp add: block_text_def)
  show ?case
  proof (cases rest)
    case Nil
    with Cons.prems(5) have "\<not> (\<exists>x y z. snd bt = x @ ''<think>'' @ y @ ''</think>'' @ z)"
      by simp
    then have "search_closed (lstrip (snd bt)) = None"
      by (intro no_closed_search no_closed_lstrip)
    then have "sub_closed (lstrip (snd bt)) = lstrip (snd bt)"
      by (rule sub_closed_none)
    with step Nil show ?thesis by simp
  next
    case (Cons bt' rest')
    then have ne: "rest \<noteq> []" by simp
    from ne Cons.prems(4) have "\<not> (\<exists>a b. snd bt = a @ ''<think>'' @ b)" by simp
    then have no: "\<not> (\<exists>a b. lstrip (snd bt) = a @ ''<think>'' @ b)"
      by (rule no_open_lstrip)
    from Cons.prems(3) have c3: "\<forall>bt\<in>set rest. \<not> (\<exists>a b. fst bt = a @ ''</think>'' @ b)"
      by simp
    from ne Cons.prems(4) have c4: "\<forall>bt\<in>set (butlast rest). \<not> (\<exists>a b. snd bt = a @ ''<think>'' @ b)"
      by simp
    from ne Cons.prems(5) have c5:
      "\<not> (\<exists>x y z. snd (last rest) = x @ ''<think>'' @ y @ ''</think>'' @ z)"
      by simp
    have "lstrip (snd bt @ concat (map block_text rest))
        = lstrip (snd bt) @ concat (map block_text rest)"
      using Cons lstrip_before_block [of "snd bt" bt' "concat (map block_text rest')"] by simp
    with step have "sub_closed (t0 @ concat (map block_text (bt # rest)))
        = rstrip t0 @ sub_closed (lstrip (snd bt) @ concat (map block_text rest))"
      by simp
    also have "sub_closed (lstrip (snd bt) @ concat (map block_text rest))
        = rstrip (lstrip (snd bt)) @ concat (map (\<lambda>bt. strip (snd bt)) (butlast rest))
            @ lstrip (snd (last rest))"
      using ne no c3 c4 c5 by (rule Cons.IH)
    finally show ?thesis
      using ne by (simp add: rstrip_lstrip)
  qed
qed


lemma separate_split:
  assumes "split_at_blocks text t0 blocks"
  shows "separate_ai_messages (Some text)
           = Inr (strip (fst (hd blocks)), concat (map strip (t0 # map snd blocks)))"
proof -
  from assms have ne: "blocks \<noteq> []"
    and tx: "text = t0 @ concat (map block_text blocks)"
    and c2: "\<not> (\<exists>a b. t0 = a @ ''<think>'' @ b)"
    and c3: "\<forall>bt\<in>set blocks. \<not> (\<exists>a b. fst bt = a @ ''</think>'' @ b)"
    and c4: "\<forall>bt\<in>set (butlast blocks). \<not> (\<exists>a b. snd bt = a @ ''<think>'' @ b)"
    and c5: "\<not> (\<exists>x y z. snd (last blocks) = x @ ''<think>'' @ y @ ''</think>'' @ z)"
    by (simp_all add: split_at_blocks_def)
  from ne obtain bt rest where blocks: "blocks = bt # rest" by (cases blocks) auto
  with c3 have nb: "\<not> (\<exists>a b. fst bt = a @ ''</think>'' @ b)" by simp
  have "search_closed (t0 @ ''<think>'' @ fst bt @ ''</think>'' @ (snd bt @ concat (map block_text rest)))
      = Some (t0, fst bt, snd bt @ concat (map block_text rest))"
    using c2 nb by (rule search_closed_first)
  with tx blocks have m: "search_closed text = Some (t0, fst bt, snd bt @ concat (map block_text rest))"
    by (simp add: block_text_def)
  let ?M = "concat (map (\<lambda>bt. strip (snd bt)) (butlast blocks))"
  have sub: "sub_closed text = rstrip t0 @ ?M @ lstrip (snd (last blocks))"
    unfolding tx using ne c2 c3 c4 c5 by (rule sub_closed_blocks)
  have "trimmed ?M"
    by (rule trimmed_concat) (auto simp: trimmed_strip)
  then have "strip (sub_closed text) = strip t0 @ ?M @ strip (snd (last blocks))"
    unfolding sub by (rule strip_around)
  also have "\<dots> = concat (map strip (t0 # map snd (butlast blocks @ [last blocks])))"
    by (simp add: comp_def)
  also have "butlast blocks @ [last blocks] = blocks"
    using ne by simp
  finally have "strip (sub_closed text) = concat (map strip (t0 # map snd blocks))" .
  with m blocks show ?thesis
    by (simp add: separate_ai_messages_def)
qed

lemma find_sub_leftmost:
  assumes "pat \<noteq> []" and "find_sub pat s = Some (a, b)"
  shows "\<not> (\<exists>x y. a = x @ pat @ y)"
  using assms(2)
proof (induction s arbitrary: a b)
  case Nil
  with assms(1) show ?case by simp
next
  case (Cons c cs)
  show ?case
  proof (cases "prefix pat (c # cs)")
    case True
    with Cons.prems have "a = []" by simp
    with assms(1) show ?thesis by simp
  next
    case False
    with Cons.prems obtain a' where a': "find_sub pat cs = Some (a', b)" "a = c # a'"
      by (auto split: option.splits)
    from find_sub_sound [OF a'(1)] have cs: "cs = a' @ pat @ b" .
    show ?thesis
    proof
      assume "\<exists>x y. a = x @ pat @ y"
      then obtain x y where xy: "a = x @ pat @ y" by blast
      show False
      proof (cases x)
        case Nil
        with xy a'(2) cs have "c # cs = pat @ (y @ pat @ b)" by simp
        then have "prefix pat (c # cs)" by (metis prefixI)
        with False show False by simp
      next
        case (Cons x0 x')
        with xy a'(2) have "a' = x' @ pat @ y" by simp
        with Cons.IH [OF a'(1)] show False by blast
      qed
    qed
  qed
qed

lemma overlap_free:
  assumes "pat \<noteq> []" and "hd pat \<notin> set (tl pat)" and "u @ pat @ r = pat @ s"
  shows "u = [] \<or> (\<exists>u'. u = pat @ u')"
proof -
  from assms(3) obtain w where
    "(u = pat @ w \<and> w @ pat @ r = s) \<or> (u @ w = pat \<and> pat @ r = w @ s)"
    by (auto simp: append_eq_append_conv2)
  then show ?thesis
  proof
    assume "u = pat @ w \<and> w @ pat @ r = s"
    then show ?thesis by blast
  next
    assume b: "u @ w = pat \<and> pat @ r = w @ s"
    show ?thesis
    proof (cases "u = []")
      case True
      then show ?thesis by simp
    next
      case False
      show ?thesis
      proof (cases "w = []")
        case True
        with b have "u = pat @ []" by simp
        then show ?thesis by blast
      next
        case wne: False
        from b assms(1) wne have "hd pat = hd w"
          by (metis hd_append2)
        moreover from b False wne have "hd w \<in> set (tl pat)"
          by (metis hd_in_set in_set_conv_decomp list.sel(3) tl_append2 Un_iff set_append)
        ultimately show ?thesis using assms(2) by simp
      qed
    qed
  qed
qed

lemma closed_after_first:
  assumes ne: "pat \<noteq> []" and ub: "hd pat \<notin> set (tl pat)"
    and f: "find_sub pat t = Some (p, r)"
    and t2: "t = x @ pat @ y @ cl @ z"
  shows "\<exists>u v. r = u @ cl @ v"
proof -
  from find_sub_sound [OF f] have t: "t = p @ pat @ r" .
  from find_sub_leftmost [OF ne f] have lm: "\<not> (\<exists>a b. p = a @ pat @ b)" .
  have "p @ (pat @ r) = x @ (pat @ y @ cl @ z)"
    by (rule trans [OF t [symmetric] t2])
  then have "\<exists>w. (p = x @ w \<and> w @ pat @ r = pat @ y @ cl @ z)
     \<or> (p @ w = x \<and> pat @ r = w @ pat @ y @ cl @ z)"
    by (rule iffD1 [OF append_eq_append_conv2])
  then obtain w where
    "(p = x @ w \<and> w @ pat @ r = pat @ y @ cl @ z)
     \<or> (p @ w = x \<and> pat @ r = w @ pat @ y @ cl @ z)"
    by blast
  then show ?thesis
  proof
    assume a: "p = x @ w \<and> w @ pat @ r = pat @ y @ cl @ z"
    then have a1: "p = x @ w" and a2: "w @ pat @ r = pat @ (y @ cl @ z)" by simp_all
    from overlap_free [OF ne ub a2] show ?thesis
    proof
      assume "w = []"
      with a2 have "r = y @ cl @ z" by simp
      then show ?thesis by blast
    next
      assume "\<exists>u'. w = pat @ u'"
      then obtain u' where "w = pat @ u'" by blast
      with a1 have "p = x @ pat @ u'" by simp
      with lm show ?thesis by blast
    qed
  next
    assume b: "p @ w = x \<and> pat @ r = w @ pat @ y @ cl @ z"
    then have b2: "w @ pat @ (y @ cl @ z) = pat @ r" by simp
    from overlap_free [OF ne ub b2] show ?thesis
    proof
      assume "w = []"
      with b2 have "r = y @ cl @ z" by simp
      then show ?thesis by blast
    next
      assume "\<exists>u'. w = pat @ u'"
      then obtain u' where "w = pat @ u'" by blast
      with b2 have "r = (u' @ pat @ y) @ cl @ z" by simp
      then show ?thesis by blast
    qed
  qed
qed


lemma has_closed_search:
  assumes "\<exists>x y z. t = x @ ''<think>'' @ y @ ''</think>'' @ z"
  shows "\<exists>p i q. search_closed t = Some (p, i, q)"
proof -
  from assms obtain x y z where xyz: "t = x @ ''<think>'' @ y @ ''</think>'' @ z" by blast
  then have "\<exists>a b. t = a @ ''<think>'' @ b" by blast
  then have "find_sub ''<think>'' t \<noteq> None"
    unfolding find_sub_None_iff by simp
  then obtain p r where pr: "find_sub ''<think>'' t = Some (p, r)" by auto
  have ne: "''<think>'' \<noteq> []" and ub: "hd ''<think>'' \<notin> set (tl ''<think>'')"
    by simp_all
  from closed_after_first [OF ne ub pr xyz] have "\<exists>u v. r = u @ ''</think>'' @ v" .
  then have "find_sub ''</think>'' r \<noteq> None"
    unfolding find_sub_None_iff by simp
  then obtain i q where "find_sub ''</think>'' r = Some (i, q)" by auto
  with pr have "search_closed t = Some (p, i, q)"
    by (simp add: search_closed_def open_tag_def close_tag_def)
  then show ?thesis by blast
qed

lemma search_closed_parts:
  assumes "search_closed t = Some (p, i, q)"
  shows "\<not> (\<exists>a b. p = a @ ''<think>'' @ b)" and "\<not> (\<exists>a b. i = a @ ''</think>'' @ b)"
proof -
  from assms obtain rest where
    r: "find_sub open_tag t = Some (p, rest)" "find_sub close_tag rest = Some (i, q)"
    by (auto simp: search_closed_def split: option.splits)
  have "open_tag \<noteq> []" "close_tag \<noteq> []"
    by (simp_all add: open_tag_def close_tag_def)
  from find_sub_leftmost [OF this(1) r(1)] find_sub_leftmost [OF this(2) r(2)]
  show "\<not> (\<exists>a b. p = a @ ''<think>'' @ b)" and "\<not> (\<exists>a b. i = a @ ''</think>'' @ b)"
    unfolding open_tag_def close_tag_def by blast+
qed

lemma closed_decomposition:
  "\<exists>x y z. s = x @ ''<think>'' @ y @ ''</think>'' @ z \<Longrightarrow>
   \<exists>t0 blocks. split_at_blocks s t0 blocks"
proof (induction s rule: length_induct)
  case (1 t)
  from has_closed_search [OF "1.prems"] obtain p i q where m: "search_closed t = Some (p, i, q)"
    by blast
  from search_closed_sound [OF m] have t: "t = p @ ''<think>'' @ i @ ''</think>'' @ q" .
  note np = search_closed_parts(1) [OF m] and ni = search_closed_parts(2) [OF m]
  show ?case
  proof (cases "\<exists>x y z. q = x @ ''<think>'' @ y @ ''</think>'' @ z")
    case True
    from search_closed_post_shorter [OF m] have "length q < length t" .
    with "1.IH" True obtain t0 blocks where d: "split_at_blocks q t0 blocks" by blast
    from d have ne: "blocks \<noteq> []"
      and q: "q = t0 @ concat (map block_text blocks)"
      and c2: "\<not> (\<exists>a b. t0 = a @ ''<think>'' @ b)"
      and c3: "\<forall>bt\<in>set blocks. \<not> (\<exists>a b. fst bt = a @ ''</think>'' @ b)"
      and c4: "\<forall>bt\<in>set (butlast blocks). \<not> (\<exists>a b. snd bt = a @ ''<think>'' @ b)"
      and c5: "\<not> (\<exists>x y z. snd (last blocks) = x @ ''<think>'' @ y @ ''</think>'' @ z)"
      unfolding split_at_blocks_def by blast+
    have e: "t = p @ concat (map block_text ((i, t0) # blocks))"
      unfolding t q by (simp add: block_text_def)
    have b3: "\<forall>bt\<in>set ((i, t0) # blocks). \<not> (\<exists>a b. fst bt = a @ ''</think>'' @ b)"
      using ni c3 by simp
    have b4: "\<forall>bt\<in>set (butlast ((i, t0) # blocks)). \<not> (\<exists>a b. snd bt = a @ ''<think>'' @ b)"
      using ne c2 c4 by simp
    have b5: "\<not> (\<exists>x y z. snd (last ((i, t0) # blocks)) = x @ ''<think>'' @ y @ ''</think>'' @ z)"
      using ne c5 by simp
    have "split_at_blocks t p ((i, t0) # blocks)"
      unfolding split_at_blocks_def using e np b3 b4 b5 by blast
    then show ?thesis by blast
  next
    case False
    have e: "t = p @ concat (map block_text [(i, q)])"
      unfolding t by (simp add: block_text_def)
    have b3: "\<forall>bt\<in>set [(i, q)]. \<not> (\<exists>a b. fst bt = a @ ''</think>'' @ b)"
      using ni by simp
    have b4: "\<forall>bt\<in>set (butlast [(i, q)]). \<not> (\<exists>a b. snd bt = a @ ''<think>'' @ b)"
      by simp
    have b5: "\<not> (\<exists>x y z. snd (last [(i, q)]) = x @ ''<think>'' @ y @ ''</think>'' @ z)"
      using False by simp
    have "split_at_blocks t p [(i, q)]"
      unfolding split_at_blocks_def using e np b3 b4 b5 by blast
    then show ?thesis by blast
  qed
qed


text \<open>
  C4, amended: every input that holds a closed block splits into the text in front of
  the first block and the closed blocks with the texts behind them. For every such
  split, the reasoning is the content of the first block, trimmed, and the final part is
  what stands outside the blocks, each piece trimmed and the pieces joined: all closed
  blocks are removed together with the whitespace in front of and behind each of them,
  and the result is trimmed.
\<close>

theorem separate_closed:
  assumes "\<exists>x y z. text = x @ ''<think>'' @ y @ ''</think>'' @ z"
  shows "(\<exists>t0 blocks. split_at_blocks text t0 blocks)
       \<and> (\<forall>t0 blocks. split_at_blocks text t0 blocks \<longrightarrow>
            separate_ai_messages (Some text)
              = Inr (strip (fst (hd blocks)), concat (map strip (t0 # map snd blocks))))"
  using closed_decomposition [OF assms] separate_split by blast

text \<open>Scenario B: \<open><think>First</think> and <think>Second</think>\<close>.\<close>

theorem separate_closed_witness:
  "(\<exists>x y z. ''<think>First</think> and <think>Second</think>'' = x @ ''<think>'' @ y @ ''</think>'' @ z)
   \<and> separate_ai_messages (Some ''<think>First</think> and <think>Second</think>'')
       = Inr (''First'', ''and'')"
proof -
  let ?text = "''<think>First</think> and <think>Second</think>''"
  have "?text = [] @ ''<think>'' @ ''First'' @ ''</think>'' @ '' and <think>Second</think>''"
    by simp
  then have h: "\<exists>x y z. ?text = x @ ''<think>'' @ y @ ''</think>'' @ z"
    by blast
  have "find_sub ''</think>'' ''First'' = None" by simp
  then have n1: "\<not> (\<exists>a b. ''First'' = a @ ''</think>'' @ b)"
    unfolding find_sub_None_iff .
  have "find_sub ''</think>'' ''Second'' = None" by simp
  then have n2: "\<not> (\<exists>a b. ''Second'' = a @ ''</think>'' @ b)"
    unfolding find_sub_None_iff .
  have "find_sub ''<think>'' '' and '' = None" by simp
  then have n3: "\<not> (\<exists>a b. '' and '' = a @ ''<think>'' @ b)"
    unfolding find_sub_None_iff .
  have "find_sub ''<think>'' [] = None" by simp
  then have n4: "\<not> (\<exists>a b. [] = a @ ''<think>'' @ b)"
    unfolding find_sub_None_iff .
  have n5: "\<not> (\<exists>x y z. [] = x @ ''<think>'' @ y @ ''</think>'' @ z)"
    by simp
  let ?blocks = "[(''First'', '' and ''), (''Second'', [])]"
  have b1: "?blocks \<noteq> []" by simp
  have b2: "?text = [] @ concat (map block_text ?blocks)"
    by (simp add: block_text_def)
  have b3: "\<forall>bt\<in>set ?blocks. \<not> (\<exists>a b. fst bt = a @ ''</think>'' @ b)"
    using n1 n2 by (simp only: list.set ball_simps fst_conv simp_thms)
  have b4: "\<forall>bt\<in>set (butlast ?blocks). \<not> (\<exists>a b. snd bt = a @ ''<think>'' @ b)"
    using n3 by (simp only: butlast.simps list.set ball_simps snd_conv simp_thms list.simps if_True if_False)
  have b5: "\<not> (\<exists>x y z. snd (last ?blocks) = x @ ''<think>'' @ y @ ''</think>'' @ z)"
    using n5 by (simp only: last.simps snd_conv list.simps if_True if_False simp_thms)
  have d: "split_at_blocks ?text [] ?blocks"
    unfolding split_at_blocks_def using b1 b2 n4 b3 b4 b5 by blast
  have e: "strip ''First'' = ''First''" "strip '' and '' = ''and''" "strip [] = []"
    by (simp_all add: strip_def lstrip_def rstrip_def is_space_def)
  from separate_closed [OF h] d
  have "separate_ai_messages (Some ?text)
      = Inr (strip (fst (hd ?blocks)), concat (map strip ([] # map snd ?blocks)))"
    by blast
  with e h show ?thesis by simp
qed

end
